theory Spec2Isabelle
  imports Complex_Main "HOL-Library.Word" "HOL-Library.Log_Nat"
begin

unbundle bit_operations_syntax

section \<open>Machine types of \<open>cmd/compile/internal/ssa/magic.go\<close>\<close>

text \<open>
  Go's \<open>uint\<close> (on the 64-bit hosts the compiler runs on), \<open>int64\<close> and \<open>uint64\<close> are
  all 64-bit words. Arithmetic on them wraps around; \<open>int64\<close> is read through \<open>sint\<close>,
  the unsigned types through \<open>unat\<close>/\<open>uint\<close>. A Go shift by a count of 64 or more
  gives 0, which is what \<open>push_bit\<close> and \<open>drop_bit\<close> do on words.
\<close>

type_synonym uint = "64 word"
type_synonym int64 = "64 word"
type_synonym uint64 = "64 word"

datatype panic =
    DivisionByZero
  | NegativeBitIndex
  | UBitNotSet      \<comment> \<open>\<open>panic("n+1st bit isn't set")\<close> in \<open>umagic\<close>\<close>
  | SBitSet         \<comment> \<open>\<open>panic("n+1st bit is set")\<close> in \<open>smagic\<close>\<close>
  | SBitNotSet      \<comment> \<open>\<open>panic("nth bit is not set")\<close> in \<open>smagic\<close>\<close>

section \<open>Library operations used by the file\<close>

text \<open>
  Modelled from the spec: the packages \<open>math/big\<close> and \<open>math/bits\<close> are not among the
  sources. \<open>big.Int\<close> is an unbounded integer, here \<open>int\<close>. \<open>BitLen\<close> is the number of
  binary digits of the absolute value (0 for 0): the spec's \<open>\<lceil>log2 d\<rceil>\<close> on the divisors
  the computers are meant for, and \<open>\<lceil>log2 c\<rceil> - 1\<close> after the subtraction of 1.
\<close>

fun bitlen_nat :: "nat \<Rightarrow> nat" where
  "bitlen_nat k = (if k = 0 then 0 else Suc (bitlen_nat (k div 2)))"

declare bitlen_nat.simps [simp del]

definition BitLen :: "int \<Rightarrow> nat" where
  "BitLen x = bitlen_nat (nat \<bar>x\<bar>)"

text \<open>
  Modelled from the spec: \<open>big.Int.Div\<close> (not among the sources) is Euclidean division,
  with a remainder in \<open>0 \<le> r < |y|\<close>, and panics on a zero divisor; the spec uses it only
  as the ceiling division \<open>\<lceil>2^(n+s)/d\<rceil>\<close> of positive numbers.
\<close>

definition big_Div :: "int \<Rightarrow> int \<Rightarrow> panic + int" where
  "big_Div x y =
     (if y = 0 then Inl DivisionByZero
      else if 0 < y then Inr (x div y)
      else Inr (- (x div (- y))))"

text \<open>
  Modelled from the spec: \<open>big.Int.Bit\<close> (not among the sources) reads one bit of the
  two's complement representation and panics on a negative index.
\<close>

definition big_Bit :: "int \<Rightarrow> int \<Rightarrow> panic + bool" where
  "big_Bit x i = (if i < 0 then Inl NegativeBitIndex else Inr (bit x (nat i)))"

text \<open>
  Modelled from the spec: \<open>big.Int.SetBit(x, i, 0)\<close> (not among the sources) clears bit
  \<open>i\<close> and panics on a negative index; \<open>big.Int.Uint64\<close> returns the low 64 bits of the
  absolute value. The spec uses them to take \<open>M\<close> without its bit \<open>n\<close> as the multiplier.
\<close>

definition big_ClearBit :: "int \<Rightarrow> int \<Rightarrow> panic + int" where
  "big_ClearBit x i = (if i < 0 then Inl NegativeBitIndex else Inr (unset_bit (nat i) x))"

definition big_Uint64 :: "int \<Rightarrow> uint64" where
  "big_Uint64 x = word_of_int \<bar>x\<bar>"

text \<open>
  Modelled from the spec: \<open>bits.TrailingZeros64\<close> (not among the sources) is the spec's
  "count of trailing zero bits"; the result is 64 for 0.
\<close>

fun ctz_nat :: "nat \<Rightarrow> nat" where
  "ctz_nat k = (if k = 0 \<or> odd k then 0 else Suc (ctz_nat (k div 2)))"

declare ctz_nat.simps [simp del]

definition TrailingZeros64 :: "uint64 \<Rightarrow> nat" where
  "TrailingZeros64 x = (if x = 0 then 64 else ctz_nat (unat x))"

section \<open>The constant, as an n-bit unsigned value\<close>

text \<open>\<open>d := uint64(c) << (64 - n) >> (64 - n)\<close>, the subtraction being on \<open>uint\<close>.\<close>

definition residue :: "uint \<Rightarrow> int64 \<Rightarrow> uint64" where
  "residue n c = drop_bit (unat (64 - n)) (push_bit (unat (64 - n)) c)"

section \<open>Unsigned division\<close>

definition umagicOK :: "uint \<Rightarrow> int64 \<Rightarrow> bool" where
  "umagicOK n c = (let d = residue n c in d AND (d - 1) \<noteq> 0)"

record umagicData =
  us :: int64
  um :: uint64

text \<open>The big integer \<open>M\<close> of \<open>umagic\<close> after \<open>M.Div(M, C)\<close>, before the check of bit \<open>n\<close>.\<close>

definition umagic_M :: "uint \<Rightarrow> int64 \<Rightarrow> panic + int" where
  "umagic_M n c =
     (let d = residue n c;
          C = uint d;
          s = BitLen C;
          M = 1;
          M = push_bit (unat (n + word_of_nat s)) M;
          M = M + C;
          M = M - 1
      in big_Div M C)"

definition umagic :: "uint \<Rightarrow> int64 \<Rightarrow> panic + umagicData" where
  "umagic n c =
     (let d = residue n c;
          C = uint d;
          s = BitLen C
      in case umagic_M n c of
           Inl e \<Rightarrow> Inl e
         | Inr M \<Rightarrow>
            (case big_Bit M (sint n) of
               Inl e \<Rightarrow> Inl e
             | Inr b \<Rightarrow>
                if \<not> b then Inl UBitNotSet
                else (case big_ClearBit M (sint n) of
                        Inl e \<Rightarrow> Inl e
                      | Inr M' \<Rightarrow> Inr \<lparr>us = word_of_nat s, um = big_Uint64 M'\<rparr>)))"

section \<open>Signed division\<close>

definition smagicOK :: "uint \<Rightarrow> int64 \<Rightarrow> bool" where
  "smagicOK n c = (if sint c < 0 then False else c AND (c - 1) \<noteq> 0)"

record smagicData =
  ss :: int64
  sm :: uint64

text \<open>
  \<open>s := C.BitLen() - 1\<close> is a Go \<open>int\<close>; \<open>uint(s)\<close> reinterprets it, so that \<open>-1\<close> becomes
  \<open>2^64 - 1\<close>, and \<open>n + uint(s)\<close> wraps.
\<close>

definition smagic_s :: "int64 \<Rightarrow> int" where
  "smagic_s c = int (BitLen (sint c)) - 1"

definition smagic_M :: "uint \<Rightarrow> int64 \<Rightarrow> panic + int" where
  "smagic_M n c =
     (let C = sint c;
          s = smagic_s c;
          M = 1;
          M = push_bit (unat (n + word_of_int s)) M;
          M = M + C;
          M = M - 1
      in big_Div M C)"

definition smagic :: "uint \<Rightarrow> int64 \<Rightarrow> panic + smagicData" where
  "smagic n c =
     (let s = smagic_s c
      in case smagic_M n c of
           Inl e \<Rightarrow> Inl e
         | Inr M \<Rightarrow>
            (case big_Bit M (sint n) of
               Inl e \<Rightarrow> Inl e
             | Inr b \<Rightarrow>
                if b then Inl SBitSet
                else (case big_Bit M (sint (n - 1)) of
                        Inl e \<Rightarrow> Inl e
                      | Inr b' \<Rightarrow>
                         if \<not> b' then Inl SBitNotSet
                         else Inr \<lparr>ss = word_of_int s, sm = big_Uint64 M\<rparr>)))"

section \<open>Divisibility\<close>

definition udivisibleOK :: "uint \<Rightarrow> int64 \<Rightarrow> bool" where
  "udivisibleOK n c = (let d = residue n c in d AND (d - 1) \<noteq> 0)"

record udivisibleData =
  dk :: int64
  dm :: uint64
  dmax :: uint64

text \<open>One line \<open>m = m * (2 - m*d0)\<close> of the source, in \<open>uint64\<close> arithmetic.\<close>

definition newton :: "uint64 \<Rightarrow> uint64 \<Rightarrow> uint64" where
  "newton d0 m = m * (2 - m * d0)"

definition udivisible :: "uint \<Rightarrow> int64 \<Rightarrow> panic + udivisibleData" where
  "udivisible n c =
     (let d = residue n c;
          k = TrailingZeros64 d;
          d0 = drop_bit k d;
          mask = drop_bit (unat (64 - n)) (NOT 0 :: uint64);
          m = d0;
          m = newton d0 m;
          m = newton d0 m;
          m = newton d0 m;
          m = newton d0 m;
          m = newton d0 m;
          m = m AND mask
      in if d = 0 then Inl DivisionByZero
         else Inr \<lparr>dk = word_of_nat k, dm = m, dmax = mask div d\<rparr>)"

text \<open>
  Modelled from the spec: the rotation to the right within \<open>n\<close> bits is applied by the
  consumer of the constants of \<open>udivisible\<close>, not by this file. It is defined on the
  numbers below \<open>2^n\<close>; the rotation count is taken modulo \<open>n\<close>.
\<close>

definition RotateRight :: "nat \<Rightarrow> nat \<Rightarrow> nat \<Rightarrow> nat" where
  "RotateRight n y k =
     (let j = k mod n
      in (y div 2 ^ j + (y mod 2 ^ j) * 2 ^ (n - j)) mod 2 ^ n)"

text \<open>
  Modelled from the spec: \<open>trunc (x / c)\<close>, the signed division of the source language,
  which rounds towards zero. It is used with a positive divisor only.
\<close>

definition trunc_div :: "int \<Rightarrow> int \<Rightarrow> int" where
  "trunc_div x c =
     (if (x < 0) = (c < 0) then \<bar>x\<bar> div \<bar>c\<bar> else - (\<bar>x\<bar> div \<bar>c\<bar>))"

text \<open>
  Modelled from the spec: the supported operand widths. The file takes the width as a
  parameter and does not list them.
\<close>

definition widths :: "uint set" where
  "widths = {8, 16, 32, 64}"

section \<open>Arithmetic behind the constants\<close>

subsection \<open>Bit length and powers of two\<close>

lemma bitlen_nat_bounds:
  "0 < k \<Longrightarrow> 2 ^ (bitlen_nat k - 1) \<le> k \<and> k < 2 ^ bitlen_nat k"
proof (induction k rule: bitlen_nat.induct)
  case (1 k)
  show ?case
  proof (cases "k div 2 = 0")
    case True
    with 1(2) have "k = 1" by (simp add: div_eq_0_iff) 
    then show ?thesis by (simp add: bitlen_nat.simps)
  next
    case False
    then have pos: "0 < k div 2" by simp
    from 1(1)[OF _ pos] 1(2)
    have ih: "2 ^ (bitlen_nat (k div 2) - 1) \<le> k div 2" "k div 2 < 2 ^ bitlen_nat (k div 2)"
      by auto
    have bl: "bitlen_nat k = Suc (bitlen_nat (k div 2))"
      using 1(2) by (subst bitlen_nat.simps) simp
    have "0 < bitlen_nat (k div 2)"
      using pos by (subst bitlen_nat.simps) simp
    then obtain b where b: "bitlen_nat (k div 2) = Suc b"
      by (cases "bitlen_nat (k div 2)") auto
    from ih show ?thesis unfolding bl b by simp linarith
  qed
qed

lemma dvd_two_power_nat:
  fixes d :: nat
  shows "d dvd 2 ^ k \<Longrightarrow> \<exists>j. d = 2 ^ j"
proof (induction k arbitrary: d)
  case 0
  then have "d = 2 ^ 0" by simp
  then show ?case by blast
next
  case (Suc k)
  show ?case
  proof (cases "even d")
    case True
    then obtain e where e: "d = 2 * e" by (auto elim: evenE)
    with Suc.prems have "e dvd 2 ^ k" by simp
    then obtain j where "e = 2 ^ j" using Suc.IH by blast
    with e have "d = 2 ^ Suc j" by simp
    then show ?thesis by blast
  next
    case False
    then have "coprime d 2" by simp
    with Suc.prems have "d dvd 2 ^ k"
      by (simp add: coprime_dvd_mult_right_iff)
    then show ?thesis using Suc.IH by blast
  qed
qed

lemma and_pred_nat:
  fixes k :: nat
  shows "k AND (k - 1) = 0 \<longleftrightarrow> k = 0 \<or> (\<exists>j. k = 2 ^ j)"
proof (induction k rule: less_induct)
  case (less k)
  show ?case
  proof (cases "k = 0")
    case True then show ?thesis by simp
  next
    case nz: False
    show ?thesis
    proof (cases "even k")
      case True
      then obtain v where v: "k = 2 * v" by (auto elim: evenE)
      with nz have vpos: "0 < v" by simp
      have km: "k - 1 = 2 * (v - 1) + 1" using v vpos by simp
      have "(2 * v) AND (2 * (v - 1) + 1) = 2 * (v AND (v - 1))"
        by (subst and_nat_rec) simp
      then have "k AND (k - 1) = 2 * (v AND (v - 1))"
        using km v by simp
      moreover have "v < k" using v vpos by simp
      ultimately have "k AND (k - 1) = 0 \<longleftrightarrow> (\<exists>j. v = 2 ^ j)"
        using less.IH[of v] vpos by simp
      also have "\<dots> \<longleftrightarrow> (\<exists>j. k = 2 ^ j)"
      proof
        assume "\<exists>j. v = 2 ^ j"
        then obtain j where "v = 2 ^ j" by blast
        then have "k = 2 ^ Suc j" using v by simp
        then show "\<exists>j. k = 2 ^ j" by blast
      next
        assume "\<exists>j. k = 2 ^ j"
        then obtain j where j: "k = 2 ^ j" by blast
        with v vpos have "j \<noteq> 0" by (cases j) auto
        then obtain i where "j = Suc i" by (cases j) auto
        with j v have "v = 2 ^ i" by simp
        then show "\<exists>j. v = 2 ^ j" by blast
      qed
      finally show ?thesis using nz by simp
    next
      case False
      then obtain v where v: "k = 2 * v + 1" by (auto elim: oddE)
      have "k AND (k - 1) = 2 * v"
        by (subst and_nat_rec) (simp add: v)
      moreover have "(\<exists>j. k = 2 ^ j) \<longleftrightarrow> v = 0"
      proof
        assume "\<exists>j. k = 2 ^ j"
        then obtain j where j: "k = 2 ^ j" by blast
        with False have "j = 0" by (cases j) auto
        with j v show "v = 0" by simp
      next
        assume "v = 0"
        with v have "k = 2 ^ 0" by simp
        then show "\<exists>j. k = 2 ^ j" by blast
      qed
      ultimately show ?thesis using nz by simp
    qed
  qed
qed

subsection \<open>Multiplying by a rounded-up reciprocal\<close>

lemma ceil_div_bounds:
  fixes d E :: nat
  assumes "0 < d"
  defines "M \<equiv> (E + d - 1) div d"
  shows "E \<le> M * d" and "M * d \<le> E + d - 1"
proof -
  have "(E + d - 1) mod d < d" using assms by simp
  moreover have eq: "M * d + (E + d - 1) mod d = E + d - 1"
    unfolding M_def by simp
  ultimately show "E \<le> M * d" by linarith
  from eq show "M * d \<le> E + d - 1" by linarith
qed

lemma mul_shift_floor:
  fixes x d E :: nat
  assumes d: "0 < d" and small: "x * (d - 1) < E"
  shows "(x * ((E + d - 1) div d)) div E = x div d"
proof -
  define M where "M = (E + d - 1) div d"
  define q where "q = x div d"
  define r where "r = x mod d"
  have x: "x = q * d + r" and r: "r < d" using d by (simp_all add: q_def r_def)
  have lo: "E \<le> M * d" and hi: "M * d \<le> E + d - 1"
    using ceil_div_bounds[OF d, of E] by (simp_all add: M_def)
  have Epos: "0 < E" using small by simp
  have "q * d * E \<le> x * E" using x by simp
  also have "\<dots> \<le> x * (M * d)" using lo by simp
  finally have "(E * q) * d \<le> (x * M) * d" by (simp add: ac_simps)
  then have 1: "E * q \<le> x * M" using d by simp
  have "x * (M * d) \<le> x * (E + d - 1)" using hi by simp
  also have "\<dots> = x * E + x * (d - 1)" using d by (simp add: algebra_simps)
  also have "\<dots> < x * E + E" using small by simp
  also have "\<dots> = (x + 1) * E" by simp
  also have "\<dots> \<le> (q * d + d) * E"
    by (rule mult_le_mono1) (use x r in linarith)
  finally have "(x * M) * d < (E * Suc q) * d" by (simp add: ac_simps algebra_simps)
  then have 2: "x * M < E * Suc q" using d by simp
  from 1 2 have "(x * M) div E = q" by (rule div_nat_eqI)
  then show ?thesis by (simp add: M_def q_def)
qed

lemma mul_shift_ceil:
  fixes y c E :: nat
  assumes c: "0 < c" and y: "0 < y" and small: "y * (c - 1) \<le> E" and ndvd: "\<not> c dvd E"
  shows "(y * ((E + c - 1) div c) - 1) div E = y div c"
proof -
  define M where "M = (E + c - 1) div c"
  define q where "q = y div c"
  define r where "r = y mod c"
  have yq: "y = q * c + r" and r: "r < c" using c by (simp_all add: q_def r_def)
  have lo: "E \<le> M * c" and hi: "M * c \<le> E + c - 1"
    using ceil_div_bounds[OF c, of E] by (simp_all add: M_def)
  have "E \<noteq> M * c" using ndvd by auto
  with lo have lo': "E < M * c" by simp
  have "q * c * E \<le> y * E" using yq by simp
  also have "\<dots> < y * (M * c)" using lo' y by simp
  finally have "(E * q) * c < (y * M) * c" by (simp add: ac_simps)
  then have "E * q < y * M" using c by simp
  then have 1: "E * q \<le> y * M - 1" by simp
  have "y * (M * c) \<le> y * (E + c - 1)" using hi by simp
  also have "\<dots> = y * E + y * (c - 1)" using c by (simp add: algebra_simps)
  also have "\<dots> \<le> y * E + E" using small by simp
  also have "\<dots> = (y + 1) * E" by simp
  also have "\<dots> \<le> (q * c + c) * E"
    by (rule mult_le_mono1) (use yq r in linarith)
  finally have "(y * M) * c \<le> (E * Suc q) * c" by (simp add: ac_simps algebra_simps)
  then have "y * M \<le> E * Suc q" using c by simp
  moreover have "0 < y * M" using lo' y by (cases M) auto
  ultimately have 2: "y * M - 1 < E * Suc q" by linarith
  from 1 2 have "(y * M - 1) div E = q" by (rule div_nat_eqI)
  then show ?thesis by (simp add: M_def q_def)
qed

lemma umagic_M_range:
  fixes d :: nat
  assumes d: "0 < d" and up: "d < 2 ^ s" and low: "2 ^ s < 2 * d" and dn: "d \<le> 2 ^ n"
  defines "M \<equiv> (2 ^ (n + s) + d - 1) div d"
  shows "2 ^ n < M" and "M < 2 ^ (n + 1)"
proof -
  have lo: "2 ^ (n + s) \<le> M * d" and hi: "M * d \<le> 2 ^ (n + s) + d - 1"
    using ceil_div_bounds[OF d, of "2 ^ (n + s)"] by (simp_all add: M_def)
  show "2 ^ n < M"
  proof (rule ccontr)
    assume "\<not> 2 ^ n < M"
    then have "M * d \<le> 2 ^ n * d" by simp
    also have "\<dots> < 2 ^ n * 2 ^ s" using up by simp
    finally show False using lo by (simp add: power_add)
  qed
  show "M < 2 ^ (n + 1)"
  proof (rule ccontr)
    assume "\<not> M < 2 ^ (n + 1)"
    then have "2 ^ (n + 1) \<le> M" by simp
    then have "2 ^ (n + 1) * d \<le> M * d" by (rule mult_le_mono1)
    moreover have "2 ^ n * (2 ^ s + 1) \<le> 2 ^ n * (2 * d)"
      by (rule mult_le_mono2) (use low in simp)
    moreover have "2 ^ n * (2 ^ s + 1) = (2 ^ (n + s) + 2 ^ n :: nat)"
      and "2 ^ n * (2 * d) = 2 ^ (n + 1) * d"
      by (simp_all add: power_add algebra_simps)
    ultimately have "2 ^ (n + s) + 2 ^ n \<le> M * d"
      by linarith
    with hi dn d show False by linarith
  qed
qed

lemma smagic_M_range:
  fixes c :: nat
  assumes c: "0 < c" and low: "2 ^ s < c" and up: "c < 2 ^ (s + 1)" and cn: "c \<le> 2 ^ n"
    and n: "0 < n"
  defines "M \<equiv> (2 ^ (n + s) + c - 1) div c"
  shows "2 ^ (n - 1) < M" and "M < 2 ^ n"
proof -
  have lo: "2 ^ (n + s) \<le> M * c" and hi: "M * c \<le> 2 ^ (n + s) + c - 1"
    using ceil_div_bounds[OF c, of "2 ^ (n + s)"] by (simp_all add: M_def)
  obtain n' where n': "n = Suc n'" using n by (cases n) auto
  show "2 ^ (n - 1) < M"
  proof (rule ccontr)
    assume "\<not> 2 ^ (n - 1) < M"
    then have "M * c \<le> 2 ^ n' * c" by (simp add: n')
    also have "\<dots> < 2 ^ n' * 2 ^ (s + 1)" using up by simp
    finally show False using lo by (simp add: power_add n')
  qed
  show "M < 2 ^ n"
  proof (rule ccontr)
    assume "\<not> M < 2 ^ n"
    then have "2 ^ n \<le> M" by simp
    then have "2 ^ n * c \<le> M * c" by (rule mult_le_mono1)
    moreover have "2 ^ n * (2 ^ s + 1) \<le> 2 ^ n * c"
      by (rule mult_le_mono2) (use low in simp)
    moreover have "2 ^ n * (2 ^ s + 1) = (2 ^ (n + s) + 2 ^ n :: nat)"
      by (simp add: power_add algebra_simps)
    ultimately have "2 ^ (n + s) + 2 ^ n \<le> M * c"
      by linarith
    with hi cn c show False by linarith
  qed
qed

subsection \<open>Newton steps for the inverse modulo a power of two\<close>

lemma newton_error:
  "1 - newton d0 m * d0 = (1 - m * d0) ^ 2"
  by (simp add: newton_def power2_eq_square algebra_simps)

lemma odd_square_word:
  fixes d0 :: "64 word"
  assumes "odd d0"
  shows "\<exists>b. 1 - d0 * d0 = 8 * b"
proof -
  from assms obtain a where a: "d0 = 2 * a + 1" by (auto elim: oddE)
  have "even (a * (a + 1))" by simp
  then obtain b where b: "a * (a + 1) = 2 * b" unfolding dvd_def by blast
  have "1 - d0 * d0 = - (4 * (a * (a + 1)))"
    by (simp add: a algebra_simps)
  also have "\<dots> = 8 * (- b)" by (simp add: b)
  finally show ?thesis by blast
qed

lemma newton_inverse:
  fixes d0 :: "64 word"
  assumes "odd d0"
  shows "(newton d0 ^^ 5) d0 * d0 = 1"
proof -
  from odd_square_word[OF assms] obtain b where b: "1 - d0 * d0 = 8 * b" by blast
  have step: "1 - (newton d0 ^^ Suc i) d0 * d0 = (1 - (newton d0 ^^ i) d0 * d0) ^ 2" for i
    by (simp add: newton_error)
  have "1 - (newton d0 ^^ i) d0 * d0 = (8 * b) ^ (2 ^ i)" for i
  proof (induction i)
    case 0 then show ?case using b by simp
  next
    case (Suc i)
    have "((8 * b) ^ (2 ^ i)) ^ 2 = (8 * b) ^ (2 ^ i * 2)"
      by (rule power_mult [symmetric])
    then show ?case unfolding step Suc.IH by (simp add: mult.commute)
  qed
  then have "1 - (newton d0 ^^ 5) d0 * d0 = (8 * b) ^ 32" by (simp del: funpow.simps)
  also have "\<dots> = (2 ^ 64 * 2 ^ 32) * b ^ 32" by (simp add: power_mult_distrib)
  also have "(2 ^ 64 :: 64 word) = 0" by simp
  finally show ?thesis by simp
qed

subsection \<open>The rotate-and-compare test on numbers\<close>

lemma divisible_core:
  fixes x d d0 k n mi :: nat
  assumes d: "d = d0 * 2 ^ k" and dpos: "0 < d" and dN: "d < 2 ^ n"
    and inv: "(d0 * mi) mod 2 ^ n = 1" and x: "x < 2 ^ n"
  shows "d dvd x \<longleftrightarrow> RotateRight n ((x * mi) mod 2 ^ n) k \<le> (2 ^ n - 1) div d"
proof -
  define N :: nat where "N = 2 ^ n"
  define y where "y = (x * mi) mod N"
  define mx where "mx = (N - 1) div d"
  have d0pos: "0 < d0" using d dpos by (cases d0) auto
  have "(2::nat) ^ k \<le> d" using d d0pos by simp
  from this dN have "(2::nat) ^ k < 2 ^ n" by (rule le_less_trans)
  then have kn: "k < n" by simp
  then have kmod: "k mod n = k" by simp
  have Nsplit: "N = 2 ^ k * 2 ^ (n - k)"
    using kn by (simp add: N_def power_add [symmetric])
  have Npos: "0 < N" by (simp add: N_def)
  have yN: "y < N" by (simp add: y_def Npos)
  have hi: "y div 2 ^ k < 2 ^ (n - k)"
    using yN unfolding Nsplit by (simp add: less_mult_imp_div_less mult.commute)
  have "y mod 2 ^ k + 1 \<le> 2 ^ k"
    by (simp add: Suc_leI)
  then have "(y mod 2 ^ k + 1) * 2 ^ (n - k) \<le> 2 ^ k * 2 ^ (n - k)"
    by (rule mult_le_mono1)
  then have "(y mod 2 ^ k) * 2 ^ (n - k) + 2 ^ (n - k) \<le> N"
    by (simp add: Nsplit algebra_simps)
  with hi have sumN: "y div 2 ^ k + (y mod 2 ^ k) * 2 ^ (n - k) < N" by linarith
  have rot: "RotateRight n y k = y div 2 ^ k + (y mod 2 ^ k) * 2 ^ (n - k)"
    using sumN by (simp add: RotateRight_def kmod N_def)
  have recover: "(y * d0) mod N = x"
  proof -
    have "(y * d0) mod N = ((x * mi) * d0) mod N"
      by (simp add: y_def mod_mult_left_eq)
    also have "\<dots> = (x * (d0 * mi)) mod N" by (simp add: ac_simps)
    also have "\<dots> = (x * ((d0 * mi) mod N)) mod N" by (simp add: mod_mult_right_eq)
    also have "\<dots> = x" using inv x by (simp add: N_def)
    finally show ?thesis .
  qed
  have mxd: "mx * d < N"
  proof -
    have "mx * d \<le> N - 1" unfolding mx_def by simp
    with Npos show ?thesis by linarith
  qed
  have "d dvd x \<longleftrightarrow> RotateRight n y k \<le> mx"
  proof
    assume "d dvd x"
    then obtain q where q: "x = d * q" by (auto simp: dvd_def)
    have "q * d \<le> N - 1" using x q by (simp add: N_def mult.commute)
    then have qmx: "q \<le> mx" unfolding mx_def using dpos
      by (simp add: less_eq_div_iff_mult_less_eq)
    have "2 ^ k * q \<le> d0 * (2 ^ k * q)" using d0pos by simp
    also have "\<dots> = x" by (simp add: q d)
    finally have small: "2 ^ k * q < N" using x by (simp add: N_def)
    have "y = ((2 ^ k * q) * (d0 * mi)) mod N"
      by (simp add: y_def q d ac_simps)
    also have "\<dots> = ((2 ^ k * q) * ((d0 * mi) mod N)) mod N"
      by (simp add: mod_mult_right_eq)
    also have "\<dots> = 2 ^ k * q" using inv small by (simp add: N_def)
    finally have "y = 2 ^ k * q" .
    then have "RotateRight n y k = q" unfolding rot by simp
    with qmx show "RotateRight n y k \<le> mx" by simp
  next
    assume le: "RotateRight n y k \<le> mx"
    have "mx * 2 ^ k \<le> mx * d" using d d0pos by simp
    also note mxd
    also have "N = 2 ^ (n - k) * 2 ^ k" by (simp add: Nsplit mult.commute)
    finally have "mx * 2 ^ k < 2 ^ (n - k) * 2 ^ k" .
    then have mxs: "mx < 2 ^ (n - k)" by simp
    have lo0: "y mod 2 ^ k = 0"
    proof (rule ccontr)
      assume "y mod 2 ^ k \<noteq> 0"
      then have "1 \<le> y mod 2 ^ k" by simp
      then have "1 * 2 ^ (n - k) \<le> (y mod 2 ^ k) * 2 ^ (n - k)"
        by (rule mult_le_mono1)
      with le mxs show False unfolding rot by simp
    qed
    define h where "h = y div 2 ^ k"
    have yh: "y = 2 ^ k * h" using lo0 unfolding h_def by (simp add: mod_eq_0_iff_dvd)
    have hmx: "h \<le> mx" using le lo0 unfolding rot h_def by simp
    have "y * d0 = h * d" by (simp add: yh d)
    also have "\<dots> \<le> mx * d" using hmx by simp
    finally have "y * d0 < N" using mxd by simp
    with recover have "x = y * d0" by simp
    also have "\<dots> = d * h" by (simp add: yh d)
    finally show "d dvd x" by simp
  qed
  then show ?thesis by (simp add: y_def mx_def N_def)
qed

section \<open>From words to numbers\<close>

lemma widths_facts:
  assumes "n \<in> widths"
  shows "0 < unat n" and "unat n \<le> 64" and "unat (64 - n) = 64 - unat n"
    and "sint n = int (unat n)" and "sint (n - 1) = int (unat n) - 1"
  using assms by (auto simp: widths_def)

lemma shift_pair_take_bit:
  fixes c :: "64 word"
  assumes "N \<le> 64"
  shows "drop_bit (64 - N) (push_bit (64 - N) c) = take_bit N c"
  by (rule bit_word_eqI) (use assms in \<open>auto simp: bit_simps\<close>)

lemma residue_take_bit:
  "n \<in> widths \<Longrightarrow> residue n c = take_bit (unat n) c"
  by (simp add: residue_def widths_facts shift_pair_take_bit)

lemma uint_mod_sint:
  fixes c :: "64 word"
  assumes "N \<le> 64"
  shows "uint c mod 2 ^ N = sint c mod 2 ^ N"
proof -
  have "uint (word_of_int (sint c) :: 64 word) = sint c mod 2 ^ LENGTH(64)"
    by (rule uint_word_of_int)
  then have u: "uint c = sint c mod 2 ^ 64" by simp
  have dv: "(2::int) ^ N dvd 2 ^ 64"
    using assms by (rule le_imp_power_dvd)
  have "(sint c mod 2 ^ 64) mod 2 ^ N = sint c mod 2 ^ N"
    using dv by (rule mod_mod_cancel)
  then show ?thesis by (simp only: u)
qed

lemma unat_residue:
  assumes "n \<in> widths"
  shows "unat (residue n c) = nat (sint c mod 2 ^ unat n)"
proof -
  have "unat (residue n c) = take_bit (unat n) (unat c)"
    by (simp only: residue_take_bit[OF assms] unsigned_take_bit_eq)
  also have "\<dots> = unat c mod 2 ^ unat n" by (rule take_bit_eq_mod)
  also have "\<dots> = nat (int (unat c mod 2 ^ unat n))" by simp
  also have "int (unat c mod 2 ^ unat n) = int (unat c) mod 2 ^ unat n"
    by (simp add: zmod_int)
  also have "int (unat c) = uint c" by (rule uint_nat [symmetric])
  also have "uint c mod 2 ^ unat n = sint c mod 2 ^ unat n"
    using widths_facts(2)[OF assms] by (rule uint_mod_sint)
  finally show ?thesis .
qed

lemma residue_less:
  assumes "n \<in> widths"
  shows "unat (residue n c) < 2 ^ unat n"
proof -
  have "unat (residue n c) = take_bit (unat n) (unat c)"
    by (simp only: residue_take_bit[OF assms] unsigned_take_bit_eq)
  then show ?thesis by simp
qed

lemma word_and_pred:
  fixes d :: "64 word"
  shows "d AND (d - 1) = 0 \<longleftrightarrow> unat d = 0 \<or> (\<exists>j. unat d = 2 ^ j)"
proof (cases "d = 0")
  case True then show ?thesis by simp
next
  case False
  have "d AND (d - 1) = 0 \<longleftrightarrow> unat (d AND (d - 1)) = 0"
    by (simp add: unsigned_eq_0_iff)
  also have "unat (d AND (d - 1)) = unat d AND (unat d - 1)"
    by (simp add: unsigned_and_eq unat_minus_one[OF False])
  finally show ?thesis using and_pred_nat[of "unat d"] by simp
qed

subsection \<open>What \<open>umagic\<close> computes\<close>

lemma BitLen_uint: "BitLen (uint w) = bitlen_nat (unat w)"
  unfolding BitLen_def uint_nat by simp

lemma bitlen_nat_le:
  assumes "k < 2 ^ N"
  shows "bitlen_nat k \<le> N"
proof (cases "k = 0")
  case True then show ?thesis by (simp add: bitlen_nat.simps)
next
  case False
  then have "2 ^ (bitlen_nat k - 1) \<le> k" using bitlen_nat_bounds[of k] by simp
  from this assms have "(2::nat) ^ (bitlen_nat k - 1) < 2 ^ N" by (rule le_less_trans)
  then have "bitlen_nat k - 1 < N" by simp
  then show ?thesis by simp
qed

lemma not_pow2_bounds:
  fixes d :: nat
  assumes "d \<noteq> 0" and "\<forall>j. d \<noteq> 2 ^ j"
  defines "s \<equiv> bitlen_nat d"
  shows "d < 2 ^ s" and "2 ^ s < 2 * d" and "2 ^ (s - 1) < d" and "0 < s"
proof -
  have b: "2 ^ (s - 1) \<le> d" "d < 2 ^ s"
    using bitlen_nat_bounds[of d] assms(1) by (simp_all add: s_def)
  show "d < 2 ^ s" by fact
  show s: "0 < s" using assms(1) unfolding s_def by (subst bitlen_nat.simps) simp
  from b(1) assms(2) show lt: "2 ^ (s - 1) < d" by (metis le_neq_implies_less)
  have "(2::nat) ^ s = 2 * 2 ^ (s - 1)" using s by (cases s) auto
  with lt show "2 ^ s < 2 * d" by simp
qed

lemma OK_residue:
  assumes "(let d = residue n c in d AND (d - 1) \<noteq> 0)"
  shows "unat (residue n c) \<noteq> 0" and "\<forall>j. unat (residue n c) \<noteq> 2 ^ j"
  using assms word_and_pred[of "residue n c"] by (auto simp: Let_def)

lemma unat_width_plus:
  fixes n :: "64 word"
  assumes "unat n \<le> 64" and "s \<le> 64"
  shows "unat (n + word_of_nat s) = unat n + s"
proof -
  have s: "unat (word_of_nat s :: 64 word) = s"
    using assms(2) by (simp add: unat_of_nat)
  have "unat n + unat (word_of_nat s :: 64 word) < 2 ^ LENGTH(64)"
    using assms unfolding s by simp
  then have "unat (n + word_of_nat s) = unat n + unat (word_of_nat s :: 64 word)"
    by (simp only: unat_add_lem)
  then show ?thesis by (simp only: s)
qed

lemma bit_between:
  fixes M :: nat
  assumes "2 ^ N \<le> M" and "M < 2 ^ (N + 1)"
  shows "bit (int M) N"
proof -
  have "M div 2 ^ N = 1"
    by (rule div_nat_eqI) (use assms in simp_all)
  then have "odd (M div 2 ^ N)" by simp
  then have "bit M N" by (simp add: bit_iff_odd)
  then show ?thesis by (simp add: bit_of_nat_iff_bit)
qed

lemma bit_below:
  fixes M :: nat
  assumes "M < 2 ^ N"
  shows "\<not> bit (int M) N"
proof -
  have "M div 2 ^ N = 0" using assms by simp
  then have "\<not> bit M N" by (simp add: bit_iff_odd)
  then show ?thesis by (simp add: bit_of_nat_iff_bit)
qed

lemma int_ceil_div:
  fixes d :: nat
  assumes "0 < d"
  shows "(2 ^ e + int d - 1) div int d = int ((2 ^ e + d - 1) div d)"
proof -
  have "2 ^ e + int d - 1 = int (2 ^ e + d - 1)" using assms by (simp add: of_nat_diff)
  then show ?thesis by (simp only: zdiv_int)
qed

lemma umagic_M_eq:
  assumes n: "n \<in> widths" and ok: "umagicOK n c"
  defines "d \<equiv> unat (residue n c)"
  shows "umagic_M n c = Inr (int ((2 ^ (unat n + bitlen_nat d) + d - 1) div d))"
proof -
  have dnz: "d \<noteq> 0" using OK_residue(1)[OF ok[unfolded umagicOK_def]] by (simp add: d_def)
  have "d < 2 ^ unat n" unfolding d_def by (rule residue_less[OF n])
  then have "bitlen_nat d \<le> unat n" by (rule bitlen_nat_le)
  then have s64: "bitlen_nat d \<le> 64" using widths_facts(2)[OF n] by simp
  have sh: "unat (n + word_of_nat (bitlen_nat d)) = unat n + bitlen_nat d"
    using widths_facts(2)[OF n] s64 by (rule unat_width_plus)
  have ud: "uint (residue n c) = int d" unfolding d_def by (rule uint_nat)
  have "umagic_M n c = big_Div (2 ^ (unat n + bitlen_nat d) + int d - 1) (int d)"
    by (simp add: umagic_M_def Let_def BitLen_uint sh ud d_def[symmetric] push_bit_eq_mult)
  also have "\<dots> = Inr ((2 ^ (unat n + bitlen_nat d) + int d - 1) div int d)"
    using dnz by (simp add: big_Div_def)
  finally show ?thesis using dnz by (simp only: int_ceil_div)
qed

lemma real_ceil_div:
  fixes d E :: nat
  assumes d: "0 < d"
  shows "\<lceil>real E / real d\<rceil> = int ((E + d - 1) div d)"
proof (rule ceiling_unique)
  define M where "M = (E + d - 1) div d"
  have lo: "E \<le> M * d" and hi: "M * d \<le> E + d - 1"
    using ceil_div_bounds[OF d, of E] by (simp_all add: M_def)
  have "real E \<le> real (M * d)" using lo by (rule of_nat_mono)
  then have "real E \<le> real M * real d" by simp
  then show "real E / real d \<le> of_int (int ((E + d - 1) div d))"
    using d by (simp add: M_def pos_divide_le_eq)
  have "M * d < E + d" using hi d by linarith
  then have "real (M * d) < real (E + d)" by (simp only: of_nat_less_iff)
  then have "(real M - 1) * real d < real E" by (simp add: algebra_simps)
  then show "of_int (int ((E + d - 1) div d)) - 1 < real E / real d"
    using d by (simp add: M_def pos_less_divide_eq)
qed

lemma umagic_eq:
  assumes n: "n \<in> widths" and ok: "umagicOK n c"
  defines "d \<equiv> unat (residue n c)"
  defines "s \<equiv> bitlen_nat d"
  defines "M \<equiv> (2 ^ (unat n + s) + d - 1) div d"
  shows "umagic n c = Inr \<lparr>us = word_of_nat s, um = word_of_nat (M - 2 ^ unat n)\<rparr>"
    and "unat (word_of_nat s :: 64 word) = s"
    and "unat (word_of_nat (M - 2 ^ unat n) :: 64 word) = M - 2 ^ unat n"
    and "2 ^ unat n < M" and "M < 2 ^ (unat n + 1)"
    and "0 < d" and "d < 2 ^ s" and "2 ^ s < 2 * d" and "d < 2 ^ unat n"
proof -
  have dnz: "d \<noteq> 0" and np: "\<forall>j. d \<noteq> 2 ^ j"
    using OK_residue[OF ok[unfolded umagicOK_def]] by (simp_all add: d_def)
  show dpos: "0 < d" using dnz by simp
  show ds: "d < 2 ^ s" and sd: "2 ^ s < 2 * d"
    using not_pow2_bounds[OF dnz np] by (simp_all add: s_def)
  show dn: "d < 2 ^ unat n" unfolding d_def by (rule residue_less[OF n])
  then have "s \<le> unat n" unfolding s_def by (rule bitlen_nat_le)
  then have s64: "s \<le> 64" using widths_facts(2)[OF n] by simp
  then show us: "unat (word_of_nat s :: 64 word) = s" by (simp add: unat_of_nat)
  have dn': "d \<le> 2 ^ unat n" using dn by simp
  show Mlo: "2 ^ unat n < M" and Mhi: "M < 2 ^ (unat n + 1)"
    using umagic_M_range[OF dpos ds sd dn'] by (simp_all add: M_def)
  have "(2::nat) ^ unat n \<le> 2 ^ 64"
    using widths_facts(2)[OF n] by (rule power_increasing) simp
  with Mhi have "M - 2 ^ unat n < 2 ^ 64" by simp
  then show um: "unat (word_of_nat (M - 2 ^ unat n) :: 64 word) = M - 2 ^ unat n"
    by (simp add: unat_of_nat)
  have Meq: "umagic_M n c = Inr (int M)"
    using umagic_M_eq[OF n ok] by (simp add: M_def s_def d_def)
  have b: "bit (int M) (unat n)"
    by (rule bit_between) (use Mlo Mhi in simp_all)
  have "unset_bit (unat n) (int M) = int M - 2 ^ unat n"
    using b by (simp add: unset_bit_eq)
  also have "\<dots> = int (M - 2 ^ unat n)" using Mlo by (simp add: of_nat_diff)
  finally have clr: "unset_bit (unat n) (int M) = int (M - 2 ^ unat n)" .
  show "umagic n c = Inr \<lparr>us = word_of_nat s, um = word_of_nat (M - 2 ^ unat n)\<rparr>"
    unfolding umagic_def Meq
    by (simp add: Let_def big_Bit_def big_ClearBit_def big_Uint64_def widths_facts(4)[OF n]
        b clr BitLen_uint d_def[symmetric] s_def[symmetric])
qed

subsection \<open>What \<open>smagic\<close> computes\<close>

lemma sint_nonneg_eq:
  fixes c :: "64 word"
  assumes "0 \<le> sint c"
  shows "sint c = int (unat c)"
proof -
  have "uint (word_of_int (sint c) :: 64 word) = sint c mod 2 ^ LENGTH(64)"
    by (rule uint_word_of_int)
  then have u: "uint c = sint c mod 2 ^ 64" by simp
  have "sint c < 2 ^ (LENGTH(64) - 1)" by (rule sint_lt)
  then have "sint c < 2 ^ 64" by simp
  with assms have "sint c mod 2 ^ 64 = sint c" by (simp only: mod_pos_pos_trivial)
  with u have "uint c = sint c" by simp
  then show ?thesis by (simp only: uint_nat)
qed

lemma neg_div_int:
  fixes a E :: nat
  assumes "0 < a" and "0 < E"
  shows "(- int a) div int E = - int ((a - 1) div E) - 1"
proof (rule int_div_pos_eq)
  show "- int a = int E * (- int ((a - 1) div E) - 1) + (int E - 1 - int ((a - 1) mod E))"
  proof -
    have "int (a - 1) = int E * int ((a - 1) div E) + int ((a - 1) mod E)"
      by (simp flip: of_nat_mult of_nat_add)
    then show ?thesis using assms(1) by (simp add: algebra_simps of_nat_diff)
  qed
  have "(a - 1) mod E < E" using assms(2) by simp
  then show "0 \<le> int E - 1 - int ((a - 1) mod E)" by linarith
  show "int E - 1 - int ((a - 1) mod E) < int E" by simp
qed

lemma smagicOK_pos:
  assumes ok: "smagicOK n c"
  defines "C \<equiv> unat c"
  shows "sint c = int C" and "C \<noteq> 0" and "\<forall>j. C \<noteq> 2 ^ j"
proof -
  from ok have nn: "0 \<le> sint c" and a: "c AND (c - 1) \<noteq> 0"
    by (auto simp: smagicOK_def split: if_splits)
  show "sint c = int C" unfolding C_def using nn by (rule sint_nonneg_eq)
  from a word_and_pred[of c] show "C \<noteq> 0" and "\<forall>j. C \<noteq> 2 ^ j"
    by (auto simp: C_def)
qed

lemma smagic_eq:
  assumes n: "n \<in> widths" and ok: "smagicOK n c" and fit: "sint c < 2 ^ unat n"
  defines "C \<equiv> unat c"
  defines "s \<equiv> bitlen_nat C - 1"
  defines "M \<equiv> (2 ^ (unat n + s) + C - 1) div C"
  shows "smagic n c = Inr \<lparr>ss = word_of_nat s, sm = word_of_nat M\<rparr>"
    and "smagic_M n c = Inr (int M)"
    and "unat (word_of_nat s :: 64 word) = s"
    and "unat (word_of_nat M :: 64 word) = M"
    and "2 ^ (unat n - 1) < M" and "M < 2 ^ unat n"
    and "sint c = int C" and "0 < C" and "2 ^ s < C" and "C < 2 ^ (s + 1)"
    and "\<forall>j. C \<noteq> 2 ^ j"
proof -
  note p = smagicOK_pos[OF ok, folded C_def]
  show sc: "sint c = int C" by (rule p(1))
  show Cpos: "0 < C" using p(2) by simp
  show np: "\<forall>j. C \<noteq> 2 ^ j" by (rule p(3))
  note b = not_pow2_bounds[OF p(2) p(3)]
  have bl: "bitlen_nat C = s + 1" using b(4) by (simp add: s_def)
  show lo: "2 ^ s < C" using b(3) by (simp add: s_def)
  show hi: "C < 2 ^ (s + 1)" using b(1) by (simp add: bl)
  have "int C < 2 ^ unat n" using fit by (simp only: sc)
  then have "int C < int (2 ^ unat n)" by simp
  then have Cn: "C < 2 ^ unat n" by (simp only: of_nat_less_iff)
  then have "bitlen_nat C \<le> unat n" by (rule bitlen_nat_le)
  then have s64: "s \<le> 64" using widths_facts(2)[OF n] by (simp add: s_def)
  then show us: "unat (word_of_nat s :: 64 word) = s" by (simp add: unat_of_nat)
  have Cn': "C \<le> 2 ^ unat n" using Cn by simp
  show Mlo: "2 ^ (unat n - 1) < M" and Mhi: "M < 2 ^ unat n"
    using smagic_M_range[OF Cpos lo hi Cn' widths_facts(1)[OF n]] by (simp_all add: M_def)
  have "(2::nat) ^ unat n \<le> 2 ^ 64"
    using widths_facts(2)[OF n] by (rule power_increasing) simp
  with Mhi have "M < 2 ^ 64" by simp
  then show um: "unat (word_of_nat M :: 64 word) = M" by (simp add: unat_of_nat)
  have ss: "smagic_s c = int s"
    using b(4) by (simp add: smagic_s_def sc BitLen_def s_def of_nat_diff)
  have sh: "unat (n + word_of_nat s) = unat n + s"
    using widths_facts(2)[OF n] s64 by (rule unat_width_plus)
  have "smagic_M n c = big_Div (2 ^ (unat n + s) + int C - 1) (int C)"
    by (simp add: smagic_M_def Let_def ss sh sc push_bit_eq_mult)
  also have "\<dots> = Inr ((2 ^ (unat n + s) + int C - 1) div int C)"
    using Cpos by (simp add: big_Div_def)
  finally show Meq: "smagic_M n c = Inr (int M)"
    using Cpos unfolding M_def by (simp only: int_ceil_div)
  have b1: "\<not> bit (int M) (unat n)" using Mhi by (rule bit_below)
  have "unat n - 1 + 1 = unat n" using widths_facts(1)[OF n] by simp
  then have b2: "bit (int M) (unat n - 1)"
    using Mlo Mhi by (intro bit_between) simp_all
  have nat1: "nat (uint n - 1) = unat n - Suc 0"
    unfolding uint_nat by arith
  have nn: "\<not> uint n < 1"
    using widths_facts(1)[OF n] unfolding uint_nat by arith
  have b2': "bit (int M) (unat n - Suc 0)" using b2 by simp
  show "smagic n c = Inr \<lparr>ss = word_of_nat s, sm = word_of_nat M\<rparr>"
    unfolding smagic_def Meq
    by (simp add: Let_def big_Bit_def big_Uint64_def widths_facts(4,5)[OF n] b1 b2' ss nat1 nn)
qed

lemma trunc_div_nonneg: "0 \<le> x \<Longrightarrow> 0 < c \<Longrightarrow> trunc_div x c = x div c"
  by (simp add: trunc_div_def)

lemma trunc_div_neg: "x < 0 \<Longrightarrow> 0 < c \<Longrightarrow> trunc_div x c = - ((- x) div c)"
  by (simp add: trunc_div_def)

lemma smagic_nonneg:
  fixes y C M s N :: nat
  assumes C: "0 < C" and hi: "C < 2 ^ (s + 1)" and N: "0 < N" and y: "y < 2 ^ (N - 1)"
  shows "(y * ((2 ^ (N + s) + C - 1) div C)) div 2 ^ (N + s) = y div C"
proof -
  obtain N' where N': "N = Suc N'" using N by (cases N) auto
  have "C - 1 \<le> 2 ^ (s + 1)" using hi by simp
  then have "y * (C - 1) \<le> y * 2 ^ (s + 1)" by (rule mult_le_mono2)
  also have "\<dots> < 2 ^ N' * 2 ^ (s + 1)" using y by (simp add: N')
  also have "\<dots> = 2 ^ (N + s)" by (simp add: N' power_add)
  finally show ?thesis using C by (intro mul_shift_floor)
qed

lemma smagic_negative:
  fixes y C M s N :: nat
  assumes C: "0 < C" and hi: "C < 2 ^ (s + 1)" and np: "\<forall>j. C \<noteq> 2 ^ j"
    and N: "0 < N" and y0: "0 < y" and y: "y \<le> 2 ^ (N - 1)"
  shows "(y * ((2 ^ (N + s) + C - 1) div C) - 1) div 2 ^ (N + s) = y div C"
proof -
  obtain N' where N': "N = Suc N'" using N by (cases N) auto
  have "C - 1 \<le> 2 ^ (s + 1)" using hi by simp
  then have "y * (C - 1) \<le> y * 2 ^ (s + 1)" by (rule mult_le_mono2)
  also have "\<dots> \<le> 2 ^ N' * 2 ^ (s + 1)" using y by (simp add: N')
  also have "\<dots> = 2 ^ (N + s)" by (simp add: N' power_add)
  finally have small: "y * (C - 1) \<le> 2 ^ (N + s)" .
  have nd: "\<not> C dvd 2 ^ (N + s)"
    using dvd_two_power_nat[of C "N + s"] np by blast
  show ?thesis using C y0 small nd by (rule mul_shift_ceil)
qed

lemmas smagic_eval = smagic_def smagic_M_def smagic_s_def BitLen_def bitlen_nat.simps
  big_Div_def big_Bit_def big_Uint64_def Let_def smagicOK_def

lemma smagic_M_upper:
  fixes c :: nat
  assumes c: "0 < c" and low: "2 ^ s < c"
  shows "(2 ^ (n + s) + c - 1) div c \<le> 2 ^ n"
proof (rule ccontr)
  define M where "M = (2 ^ (n + s) + c - 1) div c"
  assume "\<not> (2 ^ (n + s) + c - 1) div c \<le> 2 ^ n"
  then have "2 ^ n + 1 \<le> M" by (simp add: M_def)
  then have "(2 ^ n + 1) * c \<le> M * c" by (rule mult_le_mono1)
  moreover have "2 ^ n * (2 ^ s + 1) \<le> 2 ^ n * c"
    by (rule mult_le_mono2) (use low in simp)
  moreover have "2 ^ n * (2 ^ s + 1) = (2 ^ (n + s) + 2 ^ n :: nat)"
    and "(2 ^ n + 1) * c = 2 ^ n * c + c"
    by (simp_all add: power_add algebra_simps)
  ultimately have "2 ^ (n + s) + 2 ^ n + c \<le> M * c" by linarith
  moreover have "M * c \<le> 2 ^ (n + s) + c - 1"
    using ceil_div_bounds(2)[OF c, of "2 ^ (n + s)"] by (simp add: M_def)
  ultimately show False using c by simp
qed

lemma smagic_general:
  assumes n: "n \<in> widths" and ok: "smagicOK n c"
  defines "C \<equiv> unat c"
  defines "s \<equiv> bitlen_nat C - 1"
  defines "M \<equiv> (2 ^ (unat n + s) + C - 1) div C"
  shows "smagic_M n c = Inr (int M)"
    and "2 ^ (unat n - 1) < M" and "M \<le> 2 ^ unat n"
    and "M = 2 ^ unat n \<Longrightarrow> smagic n c = Inl SBitSet"
    and "M < 2 ^ unat n \<Longrightarrow>
           smagic n c = Inr \<lparr>ss = word_of_nat s, sm = word_of_nat M\<rparr> \<and>
           unat (word_of_nat M :: 64 word) = M \<and> bit (word_of_nat M :: 64 word) (unat n - 1)"
    and "unat (word_of_nat s :: 64 word) = s"
    and "sint c = int C" and "0 < C" and "2 ^ s < C" and "C < 2 ^ (s + 1)"
    and "\<forall>j. C \<noteq> 2 ^ j"
proof -
  note N = widths_facts(1,2)[OF n]
  note p = smagicOK_pos[OF ok, folded C_def]
  show sc: "sint c = int C" by (rule p(1))
  show Cpos: "0 < C" using p(2) by simp
  show np: "\<forall>j. C \<noteq> 2 ^ j" by (rule p(3))
  note b = not_pow2_bounds[OF p(2) p(3)]
  have bl: "bitlen_nat C = s + 1" using b(4) by (simp add: s_def)
  show lo: "2 ^ s < C" using b(3) by (simp add: s_def)
  show hi: "C < 2 ^ (s + 1)" using b(1) by (simp add: bl)
  have "C < 2 ^ 64" unfolding C_def using unsigned_less[of c, where 'a = nat] by simp
  then have "bitlen_nat C \<le> 64" by (rule bitlen_nat_le)
  then have s64: "s \<le> 64" by (simp add: s_def)
  then show us: "unat (word_of_nat s :: 64 word) = s" by (simp add: unat_of_nat)
  obtain N' where N': "unat n = Suc N'" using N(1) by (cases "unat n") auto
  have "2 ^ N' * C < 2 ^ N' * 2 ^ (s + 1)" using hi by simp
  also have "\<dots> = 2 ^ (unat n + s)" by (simp add: N' power_add)
  finally have low: "2 ^ N' * C < 2 ^ (unat n + s)" .
  show Mlo: "2 ^ (unat n - 1) < M"
  proof (rule ccontr)
    assume "\<not> 2 ^ (unat n - 1) < M"
    then have "M \<le> 2 ^ N'" by (simp add: N')
    then have "M * C \<le> 2 ^ N' * C" by (rule mult_le_mono1)
    moreover have "2 ^ (unat n + s) \<le> M * C"
      using ceil_div_bounds(1)[OF Cpos, of "2 ^ (unat n + s)"] by (simp add: M_def)
    ultimately show False using low by linarith
  qed
  show Mhi: "M \<le> 2 ^ unat n" unfolding M_def using Cpos lo by (rule smagic_M_upper)
  have ss: "smagic_s c = int s"
    using b(4) by (simp add: smagic_s_def sc BitLen_def s_def of_nat_diff)
  have sh: "unat (n + word_of_nat s) = unat n + s"
    using N(2) s64 by (rule unat_width_plus)
  have "smagic_M n c = big_Div (2 ^ (unat n + s) + int C - 1) (int C)"
    by (simp add: smagic_M_def Let_def ss sh sc push_bit_eq_mult)
  also have "\<dots> = Inr ((2 ^ (unat n + s) + int C - 1) div int C)"
    using Cpos by (simp add: big_Div_def)
  finally show Meq: "smagic_M n c = Inr (int M)"
    using Cpos unfolding M_def by (simp only: int_ceil_div)
  have nat1: "nat (uint n - 1) = unat n - Suc 0"
    unfolding uint_nat by arith
  have nn: "\<not> uint n < 1"
    using N(1) unfolding uint_nat by arith
  show "smagic n c = Inl SBitSet" if "M = 2 ^ unat n"
  proof -
    have "bit (int M) (unat n)"
      by (rule bit_between) (simp_all add: that)
    then show ?thesis
      unfolding smagic_def Meq
      by (simp add: Let_def big_Bit_def widths_facts(4)[OF n])
  qed
  show "smagic n c = Inr \<lparr>ss = word_of_nat s, sm = word_of_nat M\<rparr> \<and>
      unat (word_of_nat M :: 64 word) = M \<and> bit (word_of_nat M :: 64 word) (unat n - 1)"
    if Mlt: "M < 2 ^ unat n"
  proof -
    have "(2::nat) ^ unat n \<le> 2 ^ 64"
      using N(2) by (rule power_increasing) simp
    with Mlt have "M < 2 ^ 64" by simp
    then have um: "unat (word_of_nat M :: 64 word) = M" by (simp add: unat_of_nat)
    have b1: "\<not> bit (int M) (unat n)" using Mlt by (rule bit_below)
    have "unat n - 1 + 1 = unat n" using N(1) by simp
    then have b2: "bit (int M) (unat n - 1)"
      using Mlo Mlt by (intro bit_between) simp_all
    then have b2': "bit (int M) (unat n - Suc 0)" by simp
    have "bit M (unat n - 1)" using b2 by (simp only: bit_of_nat_iff_bit)
    moreover have "unat n - 1 < LENGTH(64)" using N by simp
    ultimately have b3: "bit (word_of_nat M :: 64 word) (unat n - 1)"
      by (simp add: bit_of_nat_iff possible_bit_word)
    have "smagic n c = Inr \<lparr>ss = word_of_nat s, sm = word_of_nat M\<rparr>"
      unfolding smagic_def Meq
      by (simp add: Let_def big_Bit_def big_Uint64_def widths_facts(4,5)[OF n] b1 b2' ss nat1 nn)
    with um b3 show ?thesis by simp
  qed
qed

lemma smagic_identity_num:
  fixes x :: int and C s M N :: nat
  assumes C: "0 < C" and hi: "C < 2 ^ (s + 1)" and np: "\<forall>j. C \<noteq> 2 ^ j"
    and N: "0 < N" and xlo: "- (2 ^ (N - 1)) \<le> x" and xhi: "x < 2 ^ (N - 1)"
    and M: "M = (2 ^ (N + s) + C - 1) div C"
  shows "trunc_div x (int C) = (x * int M) div 2 ^ (N + s) + (if x < 0 then 1 else 0)"
proof (cases "x < 0")
  case False
  define y where "y = nat x"
  have x: "x = int y" using False by (simp add: y_def)
  have "int y < int (2 ^ (N - 1))" using xhi by (simp add: x)
  then have y: "y < 2 ^ (N - 1)" by (simp only: of_nat_less_iff)
  have "(y * M) div 2 ^ (N + s) = y div C"
    unfolding M using C hi N y by (rule smagic_nonneg)
  then have "int ((y * M) div 2 ^ (N + s)) = int (y div C)" by simp
  then have "(int y * int M) div 2 ^ (N + s) = int y div int C"
    by (simp add: zdiv_int)
  moreover have "trunc_div x (int C) = x div int C"
    using False C by (intro trunc_div_nonneg) simp_all
  ultimately show ?thesis using False by (simp add: x)
next
  case True
  define y where "y = nat (- x)"
  have x: "x = - int y" using True by (simp add: y_def)
  have y0: "0 < y" using True by (simp add: y_def)
  have "int y \<le> int (2 ^ (N - 1))" using xlo by (simp add: x)
  then have y: "y \<le> 2 ^ (N - 1)" by (simp only: of_nat_le_iff)
  have "2 ^ (N + s) \<le> M * C"
    using ceil_div_bounds(1)[OF C, of "2 ^ (N + s)"] by (simp add: M)
  then have "0 < M" by (cases M) auto
  then have Mpos: "0 < y * M" using y0 by simp
  have c: "(y * M - 1) div 2 ^ (N + s) = y div C"
    unfolding M using C hi np N y0 y by (rule smagic_negative)
  have "(- int (y * M)) div int (2 ^ (N + s)) =
      - int ((y * M - 1) div 2 ^ (N + s)) - 1"
    using Mpos by (rule neg_div_int) simp
  then have "(x * int M) div 2 ^ (N + s) + 1 = - int (y div C)"
    using c by (simp add: x)
  moreover have "trunc_div x (int C) = - ((- x) div int C)"
    using True C by (intro trunc_div_neg) simp_all
  then have "trunc_div x (int C) = - int (y div C)"
    by (simp add: x zdiv_int)
  ultimately show ?thesis using True by simp
qed

lemma smagic_identity_returned:
  fixes x :: int
  assumes "n \<in> widths" and "smagicOK n c"
    and "- (2 ^ (unat n - 1)) \<le> x" and "x < 2 ^ (unat n - 1)"
  shows "smagic n c = Inl SBitSet \<or>
         (\<exists>r. smagic n c = Inr r \<and> bit (sm r) (unat n - 1) \<and>
           trunc_div x (sint c) =
           (x * uint (sm r)) div 2 ^ (unat n + unat (ss r)) + (if x < 0 then 1 else 0))"
proof -
  define C where "C = unat c"
  define s where "s = bitlen_nat C - 1"
  define M where "M = (2 ^ (unat n + s) + C - 1) div C"
  note g = smagic_general[OF assms(1,2), folded C_def, folded s_def, folded M_def]
  note N = widths_facts(1)[OF assms(1)]
  show ?thesis
  proof (cases "M = 2 ^ unat n")
    case True
    then show ?thesis using g(4) by simp
  next
    case False
    with g(3) have "M < 2 ^ unat n" by simp
    note r = g(5)[OF this]
    have uM: "uint (word_of_nat M :: 64 word) = int M"
      unfolding uint_nat using r by simp
    have "trunc_div x (int C) =
        (x * int M) div 2 ^ (unat n + s) + (if x < 0 then 1 else 0)"
      using g(8,10,11) N assms(3,4) M_def by (rule smagic_identity_num)
    then show ?thesis
      using r by (simp add: g(6) g(7) uM)
  qed
qed

lemma smagic_identity_below:
  fixes x :: int
  assumes "n \<in> widths" and "smagicOK n c" and "0 < sint c" and "sint c < 2 ^ unat n"
    and "- (2 ^ (unat n - 1)) \<le> x" and "x < 2 ^ (unat n - 1)"
  shows "\<exists>r. smagic n c = Inr r \<and>
           trunc_div x (sint c) =
           (x * uint (sm r)) div 2 ^ (unat n + unat (ss r)) + (if x < 0 then 1 else 0)"
proof -
  define C where "C = unat c"
  define s where "s = bitlen_nat C - 1"
  define M where "M = (2 ^ (unat n + s) + C - 1) div C"
  note f = smagic_eq[OF assms(1,2,4), folded C_def, folded s_def, folded M_def]
  note N = widths_facts(1)[OF assms(1)]
  have uM: "uint (word_of_nat M :: 64 word) = int M"
    unfolding uint_nat f(4) ..
  have main: "trunc_div x (int C) =
      (x * int M) div 2 ^ (unat n + s) + (if x < 0 then 1 else 0)"
  proof (cases "x < 0")
    case False
    define y where "y = nat x"
    have x: "x = int y" using False by (simp add: y_def)
    have "int y < int (2 ^ (unat n - 1))" using assms(6) by (simp add: x)
    then have y: "y < 2 ^ (unat n - 1)" by (simp only: of_nat_less_iff)
    have "(y * M) div 2 ^ (unat n + s) = y div C"
      unfolding M_def using f(8,10) N y by (rule smagic_nonneg)
    then have "int ((y * M) div 2 ^ (unat n + s)) = int (y div C)" by simp
    then have "(int y * int M) div 2 ^ (unat n + s) = int y div int C"
      by (simp add: zdiv_int)
    moreover have "trunc_div x (int C) = x div int C"
      using False f(8) by (intro trunc_div_nonneg) simp_all
    ultimately show ?thesis using False by (simp add: x)
  next
    case True
    define y where "y = nat (- x)"
    have x: "x = - int y" using True by (simp add: y_def)
    have y0: "0 < y" using True by (simp add: y_def)
    have "int y \<le> int (2 ^ (unat n - 1))" using assms(5) by (simp add: x)
    then have y: "y \<le> 2 ^ (unat n - 1)" by (simp only: of_nat_le_iff)
    have Mpos: "0 < y * M" using y0 f(5) by (cases M) auto
    have c: "(y * M - 1) div 2 ^ (unat n + s) = y div C"
      unfolding M_def using f(8,10,11) N y0 y by (rule smagic_negative)
    have "(- int (y * M)) div int (2 ^ (unat n + s)) =
        - int ((y * M - 1) div 2 ^ (unat n + s)) - 1"
      using Mpos by (rule neg_div_int) simp
    then have "(x * int M) div 2 ^ (unat n + s) + 1 = - int (y div C)"
      using c by (simp add: x)
    moreover have "trunc_div x (int C) = - ((- x) div int C)"
      using True f(8) by (intro trunc_div_neg) simp_all
    then have "trunc_div x (int C) = - int (y div C)"
      by (simp add: x zdiv_int)
    ultimately show ?thesis using True by simp
  qed
  show ?thesis
    using f(1) main by (simp add: f(3) f(7) uM)
qed

lemma smagic_invariant_below:
  assumes "n \<in> widths" and "smagicOK n c" and "0 < sint c" and "sint c < 2 ^ unat n"
  shows "\<exists>r M. smagic n c = Inr r \<and> smagic_M n c = Inr M \<and>
           int (unat (ss r)) = int (ceillog2 (nat (sint c))) - 1 \<and>
           M = \<lceil>2 ^ (unat n + unat (ss r)) / real_of_int (sint c)\<rceil> \<and>
           \<not> bit M (unat n) \<and> bit M (unat n - 1) \<and>
           sm r = word_of_int M \<and> bit (sm r) (unat n - 1)"
proof -
  define C where "C = unat c"
  define s where "s = bitlen_nat C - 1"
  define M where "M = (2 ^ (unat n + s) + C - 1) div C"
  note f = smagic_eq[OF assms(1,2,4), folded C_def, folded s_def, folded M_def]
  note N = widths_facts(1,2)[OF assms(1)]
  have cl: "ceillog2 C = s + 1"
    by (rule ceillog2_eqI) (use f(9,10) in simp_all)
  have "\<lceil>real (2 ^ (unat n + s)) / real C\<rceil> = int M"
    unfolding M_def using f(8) by (rule real_ceil_div)
  then have ce: "int M = \<lceil>2 ^ (unat n + s) / real C\<rceil>" by simp
  have b1: "\<not> bit (int M) (unat n)" using f(6) by (rule bit_below)
  have "unat n - 1 + 1 = unat n" using N(1) by simp
  then have b2: "bit (int M) (unat n - 1)"
    using f(5,6) by (intro bit_between) simp_all
  then have "bit M (unat n - 1)" by (simp only: bit_of_nat_iff_bit)
  moreover have "unat n - 1 < LENGTH(64)" using N by simp
  ultimately have b3: "bit (word_of_nat M :: 64 word) (unat n - 1)"
    by (simp add: bit_of_nat_iff possible_bit_word)
  define r where "r = \<lparr>ss = word_of_nat s, sm = word_of_nat M\<rparr>"
  have r: "ss r = word_of_nat s" "sm r = word_of_nat M" by (simp_all add: r_def)
  have 1: "smagic n c = Inr r" unfolding r_def by (rule f(1))
  have 3: "int (unat (ss r)) = int (ceillog2 (nat (int C))) - 1"
    by (simp add: r f(3) cl)
  have 4: "int M = \<lceil>2 ^ (unat n + unat (ss r)) / real_of_int (int C)\<rceil>"
    using ce by (simp add: r f(3))
  have 7: "sm r = word_of_int (int M)" by (simp add: r)
  have 8: "bit (sm r) (unat n - 1)" using b3 by (simp add: r)
  show ?thesis
    unfolding f(7) using 1 f(2) 3 4 b1 b2 7 8 by blast
qed

lemma smagic_invariant_returned:
  assumes "n \<in> widths" and "smagicOK n c"
  shows "(\<exists>M. smagic_M n c = Inr M \<and>
            M = \<lceil>2 ^ (unat n + (ceillog2 (nat (sint c)) - 1)) / real_of_int (sint c)\<rceil>) \<and>
         smagic n c \<noteq> Inl SBitNotSet \<and>
         (smagic n c = Inl SBitSet \<or>
          (\<exists>r. smagic n c = Inr r \<and>
             int (unat (ss r)) = int (ceillog2 (nat (sint c))) - 1 \<and>
             bit (sm r) (unat n - 1)))"
proof -
  define C where "C = unat c"
  define s where "s = bitlen_nat C - 1"
  define M where "M = (2 ^ (unat n + s) + C - 1) div C"
  note g = smagic_general[OF assms(1,2), folded C_def, folded s_def, folded M_def]
  have cl: "ceillog2 C = s + 1"
    by (rule ceillog2_eqI) (use g(9,10) in simp_all)
  have "\<lceil>real (2 ^ (unat n + s)) / real C\<rceil> = int M"
    unfolding M_def using g(8) by (rule real_ceil_div)
  then have ce: "int M = \<lceil>2 ^ (unat n + (ceillog2 C - 1)) / real_of_int (int C)\<rceil>"
    by (simp add: cl)
  have 1: "\<exists>M. smagic_M n c = Inr M \<and>
      M = \<lceil>2 ^ (unat n + (ceillog2 (nat (int C)) - 1)) / real_of_int (int C)\<rceil>"
    using g(1) ce by simp
  have 2: "smagic n c \<noteq> Inl SBitNotSet \<and>
      (smagic n c = Inl SBitSet \<or>
       (\<exists>r. smagic n c = Inr r \<and> int (unat (ss r)) = int (ceillog2 (nat (int C))) - 1 \<and>
          bit (sm r) (unat n - 1)))"
  proof (cases "M = 2 ^ unat n")
    case True
    then show ?thesis using g(4) by simp
  next
    case False
    with g(3) have "M < 2 ^ unat n" by simp
    note r = g(5)[OF this]
    have "uint (word_of_nat s :: 64 word) = int s"
      unfolding uint_nat g(6) ..
    with r show ?thesis by (simp add: cl)
  qed
  from 1 2 show ?thesis unfolding g(7) by blast
qed

text \<open>
  Both cases occur on constants wider than \<open>n\<close> bits: at width 8, \<open>smagic\<close> stops on 257
  and returns constants on 300.
\<close>

lemma smagic_wide_constants:
  "smagicOK 8 257 \<and> smagic 8 257 = Inl SBitSet \<and>
   smagicOK 8 300 \<and> smagic 8 300 = Inr \<lparr>ss = 8, sm = 219\<rparr>"
  by (simp add: smagic_eval)

subsection \<open>What \<open>udivisible\<close> computes\<close>

lemma ctz_nat_spec:
  "0 < k \<Longrightarrow> k = (k div 2 ^ ctz_nat k) * 2 ^ ctz_nat k \<and> odd (k div 2 ^ ctz_nat k)"
proof (induction k rule: ctz_nat.induct)
  case (1 k)
  show ?case
  proof (cases "odd k")
    case True
    then have "ctz_nat k = 0" by (subst ctz_nat.simps) simp
    with True show ?thesis by simp
  next
    case False
    with 1(2) have c: "\<not> (k = 0 \<or> odd k)" by simp
    have pos: "0 < k div 2" using False 1(2) by (auto elim: evenE)
    define t where "t = ctz_nat (k div 2)"
    have ct: "ctz_nat k = Suc t" unfolding t_def using c by (subst ctz_nat.simps) simp
    from 1(1)[OF c pos]
    have ih: "k div 2 = (k div 2 div 2 ^ t) * 2 ^ t" "odd (k div 2 div 2 ^ t)"
      by (simp_all add: t_def)
    have dv: "k div 2 ^ Suc t = k div 2 div 2 ^ t" by (simp add: div_mult2_eq)
    have "k = 2 * (k div 2)" using False by simp
    also have "\<dots> = 2 * ((k div 2 div 2 ^ t) * 2 ^ t)" using ih(1) by simp
    finally have "k = (k div 2 ^ Suc t) * 2 ^ Suc t" unfolding dv by simp
    with ih(2) show ?thesis unfolding ct dv by simp
  qed
qed

lemma odd_word_unat:
  fixes w :: "64 word"
  shows "odd w \<longleftrightarrow> odd (unat w)"
  by (metis even_of_nat mult.right_neutral unsigned_1 word_arith_nat_mult)

lemma shifted_ones:
  fixes N :: nat
  assumes "N \<le> 64"
  shows "drop_bit (64 - N) (NOT 0 :: 64 word) = mask N"
  by (rule bit_word_eqI) (use assms in \<open>auto simp: bit_simps\<close>)

lemma unat_mask64:
  fixes N :: nat
  assumes "N \<le> 64"
  shows "unat (mask N :: 64 word) = 2 ^ N - 1"
proof -
  have "uint (mask N :: 64 word) = mask (min LENGTH(64) N)" by (rule uint_mask_eq)
  also have "min LENGTH(64) N = N" using assms by simp
  finally have "uint (mask N :: 64 word) = 2 ^ N - 1" by (simp only: mask_eq_exp_minus_1)
  then have "int (unat (mask N :: 64 word)) = int (2 ^ N - 1)"
    unfolding uint_nat by (simp add: of_nat_diff)
  then show ?thesis by (simp only: of_nat_eq_iff)
qed

lemma word_inverse_mod:
  fixes a b :: "64 word" and N :: nat
  assumes ab: "a * b = 1" and N: "0 < N" "N \<le> 64"
  shows "(unat b * (unat a mod 2 ^ N)) mod 2 ^ N = 1"
proof -
  have "unat (a * b) = unat a * unat b mod 2 ^ LENGTH(64)" by (rule unat_word_ariths(2))
  then have one: "unat a * unat b mod 2 ^ 64 = 1" unfolding ab by simp
  have dv: "(2::nat) ^ N dvd 2 ^ 64" using N(2) by (rule le_imp_power_dvd)
  have "(unat b * (unat a mod 2 ^ N)) mod 2 ^ N = (unat a * unat b) mod 2 ^ N"
    by (simp add: mod_mult_right_eq mult.commute)
  also have "\<dots> = ((unat a * unat b) mod 2 ^ 64) mod 2 ^ N"
    using dv by (rule mod_mod_cancel [symmetric])
  also have "\<dots> = 1 mod 2 ^ N" by (simp only: one)
  also have "\<dots> = 1" using N(1) by (cases N) simp_all
  finally show ?thesis .
qed

lemma newton5:
  "newton d0 (newton d0 (newton d0 (newton d0 (newton d0 d0)))) = (newton d0 ^^ 5) d0"
  by (simp add: eval_nat_numeral)

lemma udivisible_eq:
  assumes n: "n \<in> widths" and ok: "udivisibleOK n c"
  defines "d \<equiv> unat (residue n c)"
  defines "k \<equiv> ctz_nat d"
  defines "d0 \<equiv> d div 2 ^ k"
  defines "m5 \<equiv> (newton (word_of_nat d0) ^^ 5) (word_of_nat d0)"
  shows "udivisible n c =
           Inr \<lparr>dk = word_of_nat k, dm = m5 AND mask (unat n),
                dmax = mask (unat n) div residue n c\<rparr>"
    and "unat (word_of_nat k :: 64 word) = k"
    and "unat (m5 AND mask (unat n)) = unat m5 mod 2 ^ unat n"
    and "unat (mask (unat n) div residue n c) = (2 ^ unat n - 1) div d"
    and "d = d0 * 2 ^ k" and "odd d0" and "0 < d" and "d < 2 ^ unat n"
    and "(d0 * (unat m5 mod 2 ^ unat n)) mod 2 ^ unat n = 1"
    and "odd (unat m5 mod 2 ^ unat n)"
proof -
  note N = widths_facts(1,2)[OF n]
  have dnz: "d \<noteq> 0"
    using OK_residue(1)[OF ok[unfolded udivisibleOK_def]] by (simp add: d_def)
  then show dpos: "0 < d" by simp
  show dn: "d < 2 ^ unat n" unfolding d_def by (rule residue_less[OF n])
  have rnz: "residue n c \<noteq> 0" using dnz by (auto simp: d_def)
  from ctz_nat_spec[OF dpos] show dk: "d = d0 * 2 ^ k" and od: "odd d0"
    by (simp_all add: d0_def k_def)
  have "0 < d0" using od by (cases d0) auto
  then have "2 ^ k \<le> d" using dk by simp
  also note dn
  finally have "k < unat n" by simp
  then have "k < 64" using N(2) by simp
  then show uk: "unat (word_of_nat k :: 64 word) = k" by (simp add: unat_of_nat)
  define D0 where "D0 = drop_bit k (residue n c)"
  have "unat D0 = drop_bit k (unat (residue n c))"
    unfolding D0_def by (rule unat_drop_bit_eq)
  also have "\<dots> = unat (residue n c) div 2 ^ k" by (rule drop_bit_eq_div)
  finally have uD0: "unat D0 = d0" by (simp only: d0_def d_def)
  have "word_of_nat (unat D0) = D0" by simp
  then have "word_of_nat d0 = D0" by (simp only: uD0)
  then have m5: "m5 = (newton D0 ^^ 5) D0" by (simp add: m5_def)
  have "odd D0" using od by (simp add: odd_word_unat uD0)
  then have inv: "m5 * D0 = 1" unfolding m5 by (rule newton_inverse)
  show um: "unat (m5 AND mask (unat n)) = unat m5 mod 2 ^ unat n"
  proof -
    have "unat (m5 AND mask (unat n)) = unat (take_bit (unat n) m5)"
      by (simp only: take_bit_eq_mask)
    also have "\<dots> = take_bit (unat n) (unat m5)" by (rule unsigned_take_bit_eq)
    also have "\<dots> = unat m5 mod 2 ^ unat n" by (rule take_bit_eq_mod)
    finally show ?thesis .
  qed
  have "(unat D0 * (unat m5 mod 2 ^ unat n)) mod 2 ^ unat n = 1"
    using inv N by (rule word_inverse_mod)
  then show one: "(d0 * (unat m5 mod 2 ^ unat n)) mod 2 ^ unat n = 1"
    by (simp only: uD0)
  have "2 dvd (2::nat) ^ unat n" using N(1) by simp
  then have "2 dvd (d0 * (unat m5 mod 2 ^ unat n)) mod 2 ^ unat n
      \<longleftrightarrow> 2 dvd d0 * (unat m5 mod 2 ^ unat n)"
    by (rule dvd_mod_iff)
  then show "odd (unat m5 mod 2 ^ unat n)" unfolding one by simp
  show "unat (mask (unat n) div residue n c) = (2 ^ unat n - 1) div d"
    by (simp only: unat_div unat_mask64[OF N(2)] d_def)
  have tz: "TrailingZeros64 (residue n c) = k"
    using rnz by (simp add: TrailingZeros64_def k_def d_def)
  have mk: "drop_bit (unat (64 - n)) (NOT 0 :: 64 word) = mask (unat n)"
    unfolding widths_facts(3)[OF n] using N(2) by (rule shifted_ones)
  show "udivisible n c =
           Inr \<lparr>dk = word_of_nat k, dm = m5 AND mask (unat n),
                dmax = mask (unat n) div residue n c\<rparr>"
    unfolding udivisible_def Let_def tz mk newton5 D0_def[symmetric] m5[symmetric]
    using rnz by simp
qed

subsection \<open>The applicability checks\<close>

lemma smagicOK_iff:
  "smagicOK n c \<longleftrightarrow> 0 < sint c \<and> (\<forall>j. sint c \<noteq> 2 ^ j)"
proof (cases "sint c < 0")
  case True
  then show ?thesis by (simp add: smagicOK_def)
next
  case False
  define C where "C = unat c"
  have sc: "sint c = int C" unfolding C_def using False by (intro sint_nonneg_eq) simp
  have p: "int C = 2 ^ j \<longleftrightarrow> C = 2 ^ j" for j
  proof -
    have "int C = int (2 ^ j) \<longleftrightarrow> C = 2 ^ j" by (rule of_nat_eq_iff)
    then show ?thesis by simp
  qed
  have "smagicOK n c \<longleftrightarrow> c AND (c - 1) \<noteq> 0" using False by (simp add: smagicOK_def)
  also have "\<dots> \<longleftrightarrow> C \<noteq> 0 \<and> (\<forall>j. C \<noteq> 2 ^ j)"
    unfolding C_def by (simp add: word_and_pred[of c])
  also have "\<dots> \<longleftrightarrow> 0 < int C \<and> (\<forall>j. int C \<noteq> 2 ^ j)"
    unfolding p by simp
  finally show ?thesis unfolding sc .
qed

lemma unsignedOK_iff:
  assumes "n \<in> widths"
  shows "(let d = residue n c in d AND (d - 1) \<noteq> 0) \<longleftrightarrow>
         nat (sint c mod 2 ^ unat n) \<noteq> 0 \<and> (\<forall>j. nat (sint c mod 2 ^ unat n) \<noteq> 2 ^ j)"
  unfolding unat_residue[OF assms, symmetric] Let_def
  by (simp add: word_and_pred[of "residue n c"])

lemma residue_minus_one: "residue 8 (- 1) = 255"
proof -
  have "unat (residue 8 (- 1)) = 255"
    using unat_residue[of 8 "- 1"] by (simp add: widths_def)
  then have "word_of_nat (unat (residue 8 (- 1))) = (word_of_nat 255 :: 64 word)"
    by (simp only:)
  then show ?thesis by simp
qed

subsection \<open>Rotation within \<open>n\<close> bits and rotation of words\<close>

lemma rotate_sum_less:
  fixes y :: nat
  assumes y: "y < 2 ^ n" and j: "j \<le> n"
  shows "y div 2 ^ j < 2 ^ (n - j)"
    and "y div 2 ^ j + (y mod 2 ^ j) * 2 ^ (n - j) < 2 ^ n"
proof -
  have split: "(2::nat) ^ n = 2 ^ j * 2 ^ (n - j)"
    using j by (simp add: power_add [symmetric])
  show hi: "y div 2 ^ j < 2 ^ (n - j)"
    using y unfolding split by (simp add: less_mult_imp_div_less mult.commute)
  have "y mod 2 ^ j + 1 \<le> 2 ^ j" by (simp add: Suc_leI)
  then have "(y mod 2 ^ j + 1) * 2 ^ (n - j) \<le> 2 ^ j * 2 ^ (n - j)"
    by (rule mult_le_mono1)
  then have "(y mod 2 ^ j) * 2 ^ (n - j) + 2 ^ (n - j) \<le> 2 ^ n"
    by (simp add: split algebra_simps)
  with hi show "y div 2 ^ j + (y mod 2 ^ j) * 2 ^ (n - j) < 2 ^ n" by linarith
qed

lemma RotateRight_word_rotr:
  fixes w :: "'a::len word"
  shows "unat (word_rotr k w) = RotateRight LENGTH('a) (unat w) k"
proof -
  define L where "L = LENGTH('a)"
  define j where "j = k mod L"
  define u where "u = unat w"
  have Lpos: "0 < L" by (simp add: L_def)
  have jL: "j \<le> L" using Lpos by (simp add: j_def less_imp_le)
  have uL: "u < 2 ^ L" unfolding u_def L_def by simp
  note s = rotate_sum_less[OF uL jL]
  have "uint (word_rotr k w) =
      take_bit (L - j) (drop_bit j (uint w)) + push_bit (L - j) (uint (take_bit j w))"
    unfolding L_def j_def by (simp only: uint_word_rotr_eq concat_bit_eq)
  also have "uint (take_bit j w) = take_bit j (uint w)" by (rule unsigned_take_bit_eq)
  finally have "int (unat (word_rotr k w)) =
      int (take_bit (L - j) (drop_bit j u) + push_bit (L - j) (take_bit j u))"
    unfolding uint_nat
    by (simp only: drop_bit_of_nat take_bit_of_nat push_bit_of_nat of_nat_add u_def)
  then have "unat (word_rotr k w) =
      take_bit (L - j) (drop_bit j u) + push_bit (L - j) (take_bit j u)"
    by (simp only: of_nat_eq_iff)
  also have "take_bit (L - j) (drop_bit j u) = u div 2 ^ j"
    using s(1) by (simp add: drop_bit_eq_div take_bit_eq_mod)
  also have "push_bit (L - j) (take_bit j u) = (u mod 2 ^ j) * 2 ^ (L - j)"
    by (simp add: push_bit_eq_mult take_bit_eq_mod)
  finally show ?thesis
    using s(2) by (simp add: RotateRight_def Let_def L_def[symmetric] j_def[symmetric]
        u_def[symmetric])
qed

section \<open>Unsigned division: the constants reproduce the quotient\<close>

text \<open>
  Claim C1. For a supported width \<open>n\<close> and a constant \<open>c\<close> accepted by \<open>umagicOK\<close>,
  \<open>umagic\<close> returns constants \<open>s\<close> and \<open>m\<close> such that, with \<open>d\<close> the residue of \<open>c\<close>
  modulo \<open>2^n\<close>, every \<open>x\<close> below \<open>2^n\<close> satisfies
  \<open>x div d = (x * (m + 2^n)) div 2^(n + s)\<close>, the product being exact and the division
  by the power of two being the logical right shift.
\<close>

theorem umagic_correct:
  fixes x :: nat
  assumes "n \<in> widths" and "umagicOK n c" and "x < 2 ^ unat n"
  shows "\<exists>r. umagic n c = Inr r \<and>
           x div nat (sint c mod 2 ^ unat n) =
           (x * (unat (um r) + 2 ^ unat n)) div 2 ^ (unat n + unat (us r))"
proof -
  define d where "d = unat (residue n c)"
  define s where "s = bitlen_nat d"
  define M where "M = (2 ^ (unat n + s) + d - 1) div d"
  note f = umagic_eq[OF assms(1,2), folded d_def, folded s_def, folded M_def]
  have "d - 1 \<le> 2 ^ s" using f(7) by simp
  then have "x * (d - 1) \<le> x * 2 ^ s" by (rule mult_le_mono2)
  also have "\<dots> < 2 ^ unat n * 2 ^ s" using assms(3) by simp
  finally have small: "x * (d - 1) < 2 ^ (unat n + s)" by (simp add: power_add)
  have "(x * M) div 2 ^ (unat n + s) = x div d"
    unfolding M_def using f(6) small by (rule mul_shift_floor)
  moreover have "M - 2 ^ unat n + 2 ^ unat n = M" using f(4) by simp
  moreover have "d = nat (sint c mod 2 ^ unat n)"
    unfolding d_def by (rule unat_residue[OF assms(1)])
  ultimately show ?thesis
    using f(1,2,3) by simp
qed

text \<open>Width 8, divisor 3, operand 255: \<open>s = 2\<close>, \<open>m = 86\<close> and the quotient is 85.\<close>

theorem umagic_correct_witness:
  "\<exists>r. umagic 8 3 = Inr r \<and>
       (255::nat) div 3 = (255 * (unat (um r) + 2 ^ 8)) div 2 ^ (8 + unat (us r))"
  using umagic_correct[of 8 3 255] by (simp add: widths_def umagicOK_def residue_def)

text \<open>
  Claim C6. Under the same precondition the shift \<open>s\<close> computed by \<open>umagic\<close> is
  \<open>\<lceil>log2 d\<rceil>\<close>, the big integer \<open>M\<close> is \<open>\<lceil>2^(n+s) / d\<rceil>\<close> and has bit \<open>n\<close> set, so
  that \<open>umagic\<close> returns its constants and the panic is not reached.
\<close>

theorem umagic_invariant:
  assumes "n \<in> widths" and "umagicOK n c"
  shows "\<exists>r M. umagic n c = Inr r \<and> umagic_M n c = Inr M \<and>
           unat (us r) = ceillog2 (nat (sint c mod 2 ^ unat n)) \<and>
           M = \<lceil>2 ^ (unat n + unat (us r)) / real (nat (sint c mod 2 ^ unat n))\<rceil> \<and>
           bit M (unat n)"
proof -
  define d where "d = unat (residue n c)"
  define s where "s = bitlen_nat d"
  define M where "M = (2 ^ (unat n + s) + d - 1) div d"
  note f = umagic_eq[OF assms(1,2), folded d_def, folded s_def, folded M_def]
  have Meq: "umagic_M n c = Inr (int M)"
    using umagic_M_eq[OF assms] by (simp add: M_def s_def d_def)
  have d: "d = nat (sint c mod 2 ^ unat n)"
    unfolding d_def by (rule unat_residue[OF assms(1)])
  have cl: "ceillog2 d = s"
    by (rule ceillog2_eqI) (use f(7,8) in simp_all)
  have "\<lceil>real (2 ^ (unat n + s)) / real d\<rceil> = int M"
    unfolding M_def using f(6) by (rule real_ceil_div)
  then have ce: "int M = \<lceil>2 ^ (unat n + s) / real d\<rceil>" by simp
  have b: "bit (int M) (unat n)"
    by (rule bit_between) (use f(4,5) in simp_all)
  show ?thesis
    unfolding d[symmetric] using f(1,2) Meq cl ce b by simp
qed

theorem umagic_invariant_witness:
  "\<exists>r M. umagic 8 3 = Inr r \<and> umagic_M 8 3 = Inr M \<and> unat (us r) = ceillog2 3 \<and>
       M = \<lceil>2 ^ (8 + unat (us r)) / real 3\<rceil> \<and> bit M 8"
  using umagic_invariant[of 8 3] by (simp add: widths_def umagicOK_def residue_def)

section \<open>Signed division: the constants reproduce the truncated quotient\<close>

text \<open>
  Claim C2. For a supported width \<open>n\<close>, a positive constant \<open>c\<close> accepted by \<open>smagicOK\<close>
  and every \<open>x\<close> with \<open>-2^(n-1) \<le> x < 2^(n-1)\<close>: when \<open>c\<close> is a constant of \<open>n\<close> bits
  (\<open>c < 2^n\<close>, which holds for every constant of the n-bit signed range), \<open>smagic\<close>
  returns constants \<open>s\<close> and \<open>m\<close> with
  \<open>trunc (x / c) = ((x * m) >> (n + s)) + (if x < 0 then 1 else 0)\<close>, the product being
  exact and the shift arithmetic (division rounding down). On any accepted constant,
  also one that does not fit in \<open>n\<close> bits, \<open>smagic\<close> either stops at its check of bit \<open>n\<close>
  or returns constants for which the same identity holds.
\<close>

theorem smagic_correct:
  fixes x :: int
  assumes "n \<in> widths" and "smagicOK n c" and "0 < sint c"
    and "- (2 ^ (unat n - 1)) \<le> x" and "x < 2 ^ (unat n - 1)"
  shows "(sint c < 2 ^ unat n \<longrightarrow>
           (\<exists>r. smagic n c = Inr r \<and>
              trunc_div x (sint c) =
              (x * uint (sm r)) div 2 ^ (unat n + unat (ss r)) + (if x < 0 then 1 else 0))) \<and>
         (smagic n c = Inl SBitSet \<or>
           (\<exists>r. smagic n c = Inr r \<and>
              trunc_div x (sint c) =
              (x * uint (sm r)) div 2 ^ (unat n + unat (ss r)) + (if x < 0 then 1 else 0)))"
proof (intro conjI impI)
  assume "sint c < 2 ^ unat n"
  with assms(1,2,3) show "\<exists>r. smagic n c = Inr r \<and>
      trunc_div x (sint c) =
      (x * uint (sm r)) div 2 ^ (unat n + unat (ss r)) + (if x < 0 then 1 else 0)"
    using assms(4,5) by (rule smagic_identity_below)
next
  from smagic_identity_returned[OF assms(1,2,4,5)]
  show "smagic n c = Inl SBitSet \<or>
      (\<exists>r. smagic n c = Inr r \<and>
         trunc_div x (sint c) =
         (x * uint (sm r)) div 2 ^ (unat n + unat (ss r)) + (if x < 0 then 1 else 0))"
    by blast
qed

text \<open>Width 8, divisor 3, operand -128: the quotient is -42.\<close>

theorem smagic_correct_witness:
  "\<exists>r. smagic 8 3 = Inr r \<and>
       trunc_div (- 128) 3 = (- 128 * uint (sm r)) div 2 ^ (8 + unat (ss r)) + 1"
  using smagic_correct[of 8 3 "- 128"] by (simp add: widths_def smagicOK_def)

text \<open>
  Claim C7. For a supported width \<open>n\<close> and a positive constant \<open>c\<close> accepted by
  \<open>smagicOK\<close>: when \<open>c\<close> is a constant of \<open>n\<close> bits (\<open>c < 2^n\<close>, which holds for every
  constant of the n-bit signed range), the shift of \<open>smagic\<close> is \<open>\<lceil>log2 c\<rceil> - 1\<close>, the big
  integer \<open>M\<close> is \<open>\<lceil>2^(n+s) / c\<rceil>\<close> with bit \<open>n\<close> clear and bit \<open>n - 1\<close> set, neither panic is
  reached, and the multiplier returned is \<open>M\<close> with its bit \<open>n - 1\<close> set. On any accepted
  constant, also one that does not fit in \<open>n\<close> bits, \<open>M\<close> is \<open>\<lceil>2^(n+s) / c\<rceil>\<close> for that shift,
  the panic on bit \<open>n - 1\<close> is not reached, and a multiplier that is returned has its bit
  \<open>n - 1\<close> set.
\<close>

theorem smagic_invariant:
  assumes "n \<in> widths" and "smagicOK n c" and "0 < sint c"
  shows "(sint c < 2 ^ unat n \<longrightarrow>
           (\<exists>r M. smagic n c = Inr r \<and> smagic_M n c = Inr M \<and>
              int (unat (ss r)) = int (ceillog2 (nat (sint c))) - 1 \<and>
              M = \<lceil>2 ^ (unat n + unat (ss r)) / real_of_int (sint c)\<rceil> \<and>
              \<not> bit M (unat n) \<and> bit M (unat n - 1) \<and>
              sm r = word_of_int M \<and> bit (sm r) (unat n - 1))) \<and>
         (\<exists>M. smagic_M n c = Inr M \<and>
            M = \<lceil>2 ^ (unat n + (ceillog2 (nat (sint c)) - 1)) / real_of_int (sint c)\<rceil>) \<and>
         smagic n c \<noteq> Inl SBitNotSet \<and>
         (smagic n c = Inl SBitSet \<or>
          (\<exists>r. smagic n c = Inr r \<and>
             int (unat (ss r)) = int (ceillog2 (nat (sint c))) - 1 \<and>
             bit (sm r) (unat n - 1)))"
  using smagic_invariant_below[OF assms] smagic_invariant_returned[OF assms(1,2)]
  by (intro conjI impI) blast+

text \<open>Width 8, divisor 3: \<open>s = 1\<close> and \<open>M = 171\<close>.\<close>

theorem smagic_invariant_witness:
  "\<exists>r M. smagic 8 3 = Inr r \<and> smagic_M 8 3 = Inr M \<and>
       int (unat (ss r)) = int (ceillog2 3) - 1 \<and>
       M = \<lceil>2 ^ (8 + unat (ss r)) / (3 :: real)\<rceil> \<and>
       \<not> bit M 8 \<and> bit M 7 \<and> sm r = word_of_int M \<and> bit (sm r) 7"
proof -
  have w: "8 \<in> widths" "smagicOK 8 3" "0 < sint (3 :: int64)"
    "sint (3 :: int64) < 2 ^ unat (8 :: uint)"
    by (simp_all add: widths_def smagicOK_def)
  show ?thesis
    using smagic_invariant[OF w(1,2,3), THEN conjunct1, THEN mp, OF w(4)] by simp
qed

text \<open>
  Claim C4, with the values the code computes. At width 8 and divisor 3, \<open>smagic\<close> returns \<open>s = 1\<close> and
  \<open>m = \<lceil>2^9 / 3\<rceil> = 171\<close>, whose bit 7 is set.
\<close>

theorem smagic_8_3:
  "smagic 8 3 = Inr \<lparr>ss = 1, sm = 171\<rparr> \<and>
   smagic_M 8 3 = Inr \<lceil>2 ^ (8 + 1) / (3 :: real)\<rceil> \<and>
   bit (171 :: uint64) 7"
  by (simp add: smagic_eval bit_iff_odd)

text \<open>
  The result is not \<open>s = 0\<close> with a multiplier from \<open>\<lceil>2^8 / 3\<rceil> = 86\<close>, and bit 7 of 86
  is clear.
\<close>

theorem smagic_8_3_counterexample:
  "smagic 8 3 \<noteq> Inr \<lparr>ss = 0, sm = 86\<rparr> \<and> smagic_M 8 3 \<noteq> Inr 86 \<and>
   \<not> bit (86 :: uint64) 7"
  by (simp add: smagic_eval bit_iff_odd)

section \<open>Divisibility: the rotate-and-compare test\<close>

text \<open>
  Claim C3. For a supported width \<open>n\<close> and a constant \<open>c\<close> accepted by \<open>udivisibleOK\<close>,
  \<open>udivisible\<close> returns \<open>k\<close>, \<open>m\<close> and \<open>max\<close> with \<open>max = (2^n - 1) div d\<close>, where \<open>d\<close> is the
  residue of \<open>c\<close> modulo \<open>2^n\<close>, and every \<open>x\<close> below \<open>2^n\<close> is a multiple of \<open>d\<close> exactly
  when the rotation to the right by \<open>k\<close>, within \<open>n\<close> bits, of \<open>(x * m) mod 2^n\<close> is at
  most \<open>max\<close>.
\<close>

theorem udivisible_correct:
  fixes x :: nat
  assumes "n \<in> widths" and "udivisibleOK n c" and "x < 2 ^ unat n"
  shows "\<exists>r. udivisible n c = Inr r \<and>
           unat (dmax r) = (2 ^ unat n - 1) div nat (sint c mod 2 ^ unat n) \<and>
           (x mod nat (sint c mod 2 ^ unat n) = 0 \<longleftrightarrow>
            RotateRight (unat n) ((x * unat (dm r)) mod 2 ^ unat n) (unat (dk r))
              \<le> unat (dmax r))"
proof -
  define d where "d = unat (residue n c)"
  define k where "k = ctz_nat d"
  define d0 where "d0 = d div 2 ^ k"
  define m5 where "m5 = (newton (word_of_nat d0) ^^ 5) (word_of_nat d0)"
  note f = udivisible_eq[OF assms(1,2), folded d_def, folded k_def, folded d0_def,
      folded m5_def]
  have d: "d = nat (sint c mod 2 ^ unat n)"
    unfolding d_def by (rule unat_residue[OF assms(1)])
  have "d dvd x \<longleftrightarrow>
      RotateRight (unat n) ((x * (unat m5 mod 2 ^ unat n)) mod 2 ^ unat n) k
        \<le> (2 ^ unat n - 1) div d"
    using f(5) f(7) f(8) f(9) assms(3) by (rule divisible_core)
  then have "x mod d = 0 \<longleftrightarrow>
      RotateRight (unat n) ((x * (unat m5 mod 2 ^ unat n)) mod 2 ^ unat n) k
        \<le> (2 ^ unat n - 1) div d"
    by (simp only: mod_eq_0_iff_dvd)
  then show ?thesis
    unfolding d[symmetric] using f(1) by (simp add: f(2,3,4))
qed

text \<open>Width 8, divisor 6, operand 12: \<open>k = 1\<close>, \<open>m = 171\<close>, \<open>max = 42\<close>.\<close>

theorem udivisible_correct_witness:
  "\<exists>r. udivisible 8 6 = Inr r \<and> unat (dmax r) = (2 ^ 8 - 1) div 6 \<and>
       ((12 :: nat) mod 6 = 0 \<longleftrightarrow>
        RotateRight 8 ((12 * unat (dm r)) mod 2 ^ 8) (unat (dk r)) \<le> unat (dmax r))"
  using udivisible_correct[of 8 6 12]
  by (simp add: widths_def udivisibleOK_def residue_def)

text \<open>
  Claim C8. Under the same precondition, with \<open>d0\<close> the odd part of the residue \<open>d\<close>, the
  inverse \<open>m\<close> returned by \<open>udivisible\<close> is odd, satisfies \<open>(d0 * m) mod 2^n = 1\<close>, and is
  the result of five Newton steps \<open>m \<leftarrow> m * (2 - m * d0)\<close> in 64-bit wrap-around arithmetic
  from the start value \<open>d0\<close>, masked to \<open>n\<close> bits; the number of steps does not depend on
  the width.
\<close>

theorem udivisible_inverse:
  assumes "n \<in> widths" and "udivisibleOK n c"
  shows "\<exists>r d0 k. udivisible n c = Inr r \<and>
           nat (sint c mod 2 ^ unat n) = d0 * 2 ^ k \<and> odd d0 \<and> unat (dk r) = k \<and>
           (d0 * unat (dm r)) mod 2 ^ unat n = 1 \<and> odd (unat (dm r)) \<and>
           dm r = (newton (word_of_nat d0) ^^ 5) (word_of_nat d0) AND mask (unat n)"
proof -
  define d where "d = unat (residue n c)"
  define k where "k = ctz_nat d"
  define d0 where "d0 = d div 2 ^ k"
  define m5 where "m5 = (newton (word_of_nat d0) ^^ 5) (word_of_nat d0)"
  note f = udivisible_eq[OF assms(1,2), folded d_def, folded k_def, folded d0_def,
      folded m5_def]
  have d: "d = nat (sint c mod 2 ^ unat n)"
    unfolding d_def by (rule unat_residue[OF assms(1)])
  define r where "r = \<lparr>dk = word_of_nat k, dm = m5 AND mask (unat n),
      dmax = mask (unat n) div residue n c\<rparr>"
  have 1: "udivisible n c = Inr r" unfolding r_def by (rule f(1))
  have 2: "nat (sint c mod 2 ^ unat n) = d0 * 2 ^ k" unfolding d[symmetric] by (rule f(5))
  have 4: "unat (dk r) = k" by (simp add: r_def f(2))
  have 5: "(d0 * unat (dm r)) mod 2 ^ unat n = 1" using f(9) by (simp add: r_def f(3))
  have 6: "odd (unat (dm r))" using f(10) by (simp add: r_def f(3))
  have 7: "dm r = (newton (word_of_nat d0) ^^ 5) (word_of_nat d0) AND mask (unat n)"
    by (simp add: r_def m5_def)
  from 1 2 f(6) 4 5 6 7 show ?thesis by blast
qed

text \<open>Width 8, divisor 6: \<open>d0 = 3\<close>, \<open>k = 1\<close> and the inverse of 3 modulo 256 is 171.\<close>

theorem udivisible_inverse_witness:
  "\<exists>r d0 k. udivisible 8 6 = Inr r \<and> (6 :: nat) = d0 * 2 ^ k \<and> odd d0 \<and>
       unat (dk r) = k \<and> (d0 * unat (dm r)) mod 2 ^ 8 = 1 \<and> odd (unat (dm r)) \<and>
       dm r = (newton (word_of_nat d0) ^^ 5) (word_of_nat d0) AND mask 8"
  using udivisible_inverse[of 8 6]
  by (simp add: widths_def udivisibleOK_def residue_def)

section \<open>Which constants the checks accept\<close>

text \<open>
  Claim C5, with the exact sets. For a supported width \<open>n\<close>, \<open>umagicOK\<close> and \<open>udivisibleOK\<close> reject
  exactly the constants whose residue modulo \<open>2^n\<close> is 0 or a power of two (1 included)
  and accept every other constant; \<open>smagicOK\<close> rejects exactly the negative constants, 0
  and the powers of two (1 included), and accepts every other constant.
\<close>

theorem applicability_exact:
  assumes "n \<in> widths"
  shows "(umagicOK n c \<longleftrightarrow>
            nat (sint c mod 2 ^ unat n) \<noteq> 0 \<and> (\<forall>j. nat (sint c mod 2 ^ unat n) \<noteq> 2 ^ j)) \<and>
         (udivisibleOK n c \<longleftrightarrow>
            nat (sint c mod 2 ^ unat n) \<noteq> 0 \<and> (\<forall>j. nat (sint c mod 2 ^ unat n) \<noteq> 2 ^ j)) \<and>
         (smagicOK n c \<longleftrightarrow> 0 < sint c \<and> (\<forall>j. sint c \<noteq> 2 ^ j))"
  unfolding umagicOK_def udivisibleOK_def
  using unsignedOK_iff[OF assms, of c] smagicOK_iff[of n c] by blast

text \<open>Width 8 and the constant -1, whose residue is 255.\<close>

theorem applicability_exact_witness:
  "(umagicOK 8 (- 1) \<longleftrightarrow> (255 :: nat) \<noteq> 0 \<and> (\<forall>j. (255 :: nat) \<noteq> 2 ^ j)) \<and>
   (udivisibleOK 8 (- 1) \<longleftrightarrow> (255 :: nat) \<noteq> 0 \<and> (\<forall>j. (255 :: nat) \<noteq> 2 ^ j)) \<and>
   (smagicOK 8 (- 1) \<longleftrightarrow> 0 < (- 1 :: int) \<and> (\<forall>j. (- 1 :: int) \<noteq> 2 ^ j))"
  using applicability_exact[of 8 "- 1"] by (simp add: widths_def)

text \<open>The constant -1 is not rejected by the unsigned checks: at width 8 it stands for 255.\<close>

theorem applicability_counterexample:
  "umagicOK 8 (- 1) \<and> udivisibleOK 8 (- 1)"
  by (simp add: umagicOK_def udivisibleOK_def residue_minus_one)

section \<open>Dependence on the constant and on the width\<close>

text \<open>
  Claim C9. For a supported width \<open>n\<close> and two constants congruent modulo \<open>2^n\<close>, the
  unsigned functions agree: \<open>umagicOK\<close>, \<open>udivisibleOK\<close>, \<open>umagic\<close> and \<open>udivisible\<close> give the
  same result on both, since each starts from the residue of the constant.
\<close>

theorem unsigned_congruent:
  assumes "n \<in> widths" and "sint c1 mod 2 ^ unat n = sint c2 mod 2 ^ unat n"
  shows "umagicOK n c1 = umagicOK n c2 \<and> udivisibleOK n c1 = udivisibleOK n c2 \<and>
         umagic n c1 = umagic n c2 \<and> udivisible n c1 = udivisible n c2"
proof -
  have "unat (residue n c1) = unat (residue n c2)"
    by (simp only: unat_residue[OF assms(1)] assms(2))
  then have r: "residue n c1 = residue n c2" by (simp only: word_unat_eq_iff)
  show ?thesis
    by (simp add: umagicOK_def udivisibleOK_def umagic_def umagic_M_def udivisible_def r)
qed

text \<open>Width 8: the constants -1 and 255.\<close>

theorem unsigned_congruent_witness:
  "umagicOK 8 (- 1) = umagicOK 8 255 \<and> udivisibleOK 8 (- 1) = udivisibleOK 8 255 \<and>
   umagic 8 (- 1) = umagic 8 255 \<and> udivisible 8 (- 1) = udivisible 8 255"
  using unsigned_congruent[of 8 "- 1" 255] by (simp add: widths_def)

text \<open>
  Claim C10. \<open>smagicOK\<close> does not look at the width: its result is the same at any two
  widths. It checks no range, accepting exactly the positive constants that are not
  powers of two, so that 300, which does not fit in 8 bits, is accepted at width 8.
\<close>

theorem smagicOK_ignores_width:
  "smagicOK n1 c = smagicOK n2 c \<and>
   (smagicOK n1 c \<longleftrightarrow> 0 < sint c \<and> (\<forall>j. sint c \<noteq> 2 ^ j)) \<and>
   smagicOK 8 300 \<and> \<not> sint (300 :: int64) < 2 ^ 8"
  using smagicOK_iff[of n1 c] by (simp add: smagicOK_def)

end
